theory Spec2Isabelle
  imports Main "HOL-Library.Word" "HOL-Library.Sublist"
begin

unbundle bit_operations_syntax

section \<open>Full-count byte I/O: \<open>anetRead\<close> and \<open>anetWrite\<close>\<close>

text \<open>
  The two loops of \<^verbatim>\<open>anet.c\<close> call \<^verbatim>\<open>read(2)\<close> and \<^verbatim>\<open>write(2)\<close>. The system call is
  an argument of the model: in a world \<open>w\<close>, a call on descriptor \<open>fd\<close>, at address \<open>buf\<close>,
  for \<open>k\<close> bytes returns a value and the next world. The C variables \<^verbatim>\<open>count\<close>,
  \<^verbatim>\<open>totlen\<close>, \<^verbatim>\<open>nread\<close> are of type \<^verbatim>\<open>int\<close>; they are integers here, and the theorems
  below show that with a system call that keeps its contract they stay between \<open>-1\<close> and
  \<^verbatim>\<open>count\<close>, so no machine addition of the loop overflows.
\<close>

type_synonym 'w io_call = "'w \<Rightarrow> int \<Rightarrow> int \<Rightarrow> int \<Rightarrow> int \<times> 'w"

partial_function (option) anetRead_loop ::
  "'w io_call \<Rightarrow> int \<Rightarrow> int \<Rightarrow> int \<Rightarrow> int \<Rightarrow> 'w \<Rightarrow> (int \<times> 'w) option" where
  "anetRead_loop rd fd buf count totlen w =
     (if totlen \<noteq> count then
        (case rd w fd buf (count - totlen) of
           (nread, w') \<Rightarrow>
             if nread = 0 then Some (totlen, w')
             else if nread = -1 then Some (-1, w')
             else anetRead_loop rd fd (buf + nread) count (totlen + nread) w')
      else Some (totlen, w))"

declare anetRead_loop.simps [code]

definition anetRead :: "'w io_call \<Rightarrow> int \<Rightarrow> int \<Rightarrow> int \<Rightarrow> 'w \<Rightarrow> (int \<times> 'w) option" where
  "anetRead rd fd buf count w = anetRead_loop rd fd buf count 0 w"

partial_function (option) anetWrite_loop ::
  "'w io_call \<Rightarrow> int \<Rightarrow> int \<Rightarrow> int \<Rightarrow> int \<Rightarrow> 'w \<Rightarrow> (int \<times> 'w) option" where
  "anetWrite_loop wr fd buf count totlen w =
     (if totlen \<noteq> count then
        (case wr w fd buf (count - totlen) of
           (nwritten, w') \<Rightarrow>
             if nwritten = 0 then Some (totlen, w')
             else if nwritten = -1 then Some (-1, w')
             else anetWrite_loop wr fd (buf + nwritten) count (totlen + nwritten) w')
      else Some (totlen, w))"

declare anetWrite_loop.simps [code]

definition anetWrite :: "'w io_call \<Rightarrow> int \<Rightarrow> int \<Rightarrow> int \<Rightarrow> 'w \<Rightarrow> (int \<times> 'w) option" where
  "anetWrite wr fd buf count w = anetWrite_loop wr fd buf count 0 w"

text \<open>
  The contract of \<^verbatim>\<open>read(2)\<close> and \<^verbatim>\<open>write(2)\<close>: asked for \<open>k > 0\<close> bytes, the call
  returns \<open>-1\<close>, or the number of bytes it moved, from \<open>0\<close> to \<open>k\<close>.
\<close>

definition posix_io :: "'w io_call \<Rightarrow> bool" where
  "posix_io io \<longleftrightarrow> (\<forall>w fd buf k. 0 < k \<longrightarrow> -1 \<le> fst (io w fd buf k) \<and> fst (io w fd buf k) \<le> k)"

text \<open>
  To speak about the calls a loop issues, the world is paired with a log, and the system
  call is wrapped so that each call appends its arguments and its return value.
\<close>

record io_event =
  ev_buf :: int
  ev_req :: int
  ev_ret :: int

definition traced :: "'w io_call \<Rightarrow> ('w \<times> io_event list) io_call" where
  "traced io = (\<lambda>(w, log) fd buf k.
     case io w fd buf k of
       (r, w') \<Rightarrow> (r, (w', log @ [\<lparr>ev_buf = buf, ev_req = k, ev_ret = r\<rparr>])))"

definition moved :: "io_event list \<Rightarrow> int" where
  "moved log = sum_list (map ev_ret log)"

text \<open>
  A pipe, for concrete runs: the world is the list of what the next calls find, a chunk of
  \<open>m\<close> ready bytes, the end of the stream, or a failure. A call takes at most what it
  asked for from the first chunk; an exhausted list reads as the end of the stream.
\<close>

datatype chunk = Ready nat | Eof | Broken

fun pipe_io :: "chunk list io_call" where
  "pipe_io [] fd buf k = (0, [])"
| "pipe_io (Eof # cs) fd buf k = (0, cs)"
| "pipe_io (Broken # cs) fd buf k = (-1, cs)"
| "pipe_io (Ready m # cs) fd buf k =
     (if int m \<le> k then (int m, cs) else (k, Ready (m - nat k) # cs))"


text \<open>
  What one run of a loop looks like, call by call: \<open>io_run n b t log res\<close> holds when,
  from a total of \<open>t\<close> and the address \<open>b\<close>, the calls in \<open>log\<close> are the ones a
  full-count loop for \<open>n\<close> bytes issues and \<open>res\<close> is what it returns.
\<close>

fun io_run :: "int \<Rightarrow> int \<Rightarrow> int \<Rightarrow> io_event list \<Rightarrow> int \<Rightarrow> bool" where
  "io_run n b t [] res = (t = n \<and> res = n)"
| "io_run n b t (e # es) res =
     (t < n \<and> ev_buf e = b \<and> ev_req e = n - t \<and>
      (if ev_ret e = 0 then es = [] \<and> res = t
       else if ev_ret e = -1 then es = [] \<and> res = -1
       else 0 < ev_ret e \<and> t + ev_ret e \<le> n \<and> io_run n (b + ev_ret e) (t + ev_ret e) es res))"


section \<open>The operating system, as far as \<^verbatim>\<open>anet.c\<close> uses it\<close>

subsection \<open>Constants\<close>

text \<open>
  Modelled from the spec: \<^verbatim>\<open>anet.h\<close> is not part of the sources. Section 6 gives
  \<open>OK = 0\<close> and \<open>ERR = -1\<close>; section 3 gives the sink a capacity of at least 256 bytes.
\<close>

definition ANET_OK :: int where "ANET_OK = 0"
definition ANET_ERR :: int where "ANET_ERR = -1"
definition ANET_ERR_LEN :: nat where "ANET_ERR_LEN = 256"

text \<open>The two flags that \<^verbatim>\<open>anet.c\<close> defines for \<open>anetTcpGenericConnect\<close>.\<close>

definition ANET_CONNECT_NONE :: int where "ANET_CONNECT_NONE = 0"
definition ANET_CONNECT_NONBLOCK :: int where "ANET_CONNECT_NONBLOCK = 1"

text \<open>
  The values of the system headers on Linux. \<open>sizeof_ptr\<close> is the size of a pointer,
  8 bytes on a 64-bit system (4 on a 32-bit one).
\<close>

definition AF_UNSPEC :: int where "AF_UNSPEC = 0"
definition AF_INET :: int where "AF_INET = 2"
definition AF_INET6 :: int where "AF_INET6 = 10"
definition AI_PASSIVE :: int where "AI_PASSIVE = 1"
definition O_RDWR :: nat where "O_RDWR = 2"
definition O_NONBLOCK :: int where "O_NONBLOCK = 2048"
definition EINTR :: nat where "EINTR = 4"
definition EBADF :: nat where "EBADF = 9"
definition EINPROGRESS :: nat where "EINPROGRESS = 115"
definition INET_ADDRSTRLEN :: nat where "INET_ADDRSTRLEN = 16"
definition INET6_ADDRSTRLEN :: nat where "INET6_ADDRSTRLEN = 46"
definition sizeof_ptr :: nat where "sizeof_ptr = 8"

subsection \<open>Addresses\<close>

text \<open>
  A socket address is the list of the bytes of its \<^verbatim>\<open>struct sockaddr_*\<close>: 16 bytes for
  \<^verbatim>\<open>sockaddr_in\<close> (family, port, 4 address bytes, padding), 28 for \<^verbatim>\<open>sockaddr_in6\<close>
  (family, port, flow, 16 address bytes, scope). The family is the first field, 16 bits in
  host order (little-endian here). A list too short to hold the field has no family to read.
\<close>

type_synonym byte = "8 word"
type_synonym sockaddr = "byte list"

definition sa_family :: "sockaddr \<Rightarrow> int" where
  "sa_family sa = (case sa of b0 # b1 # _ \<Rightarrow> int (unat b0) + 256 * int (unat b1) | _ \<Rightarrow> AF_UNSPEC)"

text \<open>
  \<^verbatim>\<open>memcpy(dst, src, n)\<close> on byte lists: the first \<open>n\<close> bytes of \<open>dst\<close> become those of
  \<open>src\<close>. The objects that \<^verbatim>\<open>anet.c\<close> copies are at least \<open>n\<close> bytes long; from a
  shorter \<open>src\<close> only the bytes it has are copied.
\<close>

definition memcpy :: "byte list \<Rightarrow> byte list \<Rightarrow> nat \<Rightarrow> byte list" where
  "memcpy dst src n = take n src @ drop (length (take n src)) dst"

record addrinfo =
  ai_family :: int
  ai_addr :: sockaddr
  ai_addrlen :: nat

datatype gai_err =
  EAI_BADFLAGS | EAI_NONAME | EAI_AGAIN | EAI_FAIL | EAI_FAMILY | EAI_SOCKTYPE
  | EAI_SERVICE | EAI_MEMORY | EAI_SYSTEM

fun gai_code :: "gai_err \<Rightarrow> int" where
  "gai_code EAI_BADFLAGS = -1"
| "gai_code EAI_NONAME = -2"
| "gai_code EAI_AGAIN = -3"
| "gai_code EAI_FAIL = -4"
| "gai_code EAI_FAMILY = -6"
| "gai_code EAI_SOCKTYPE = -7"
| "gai_code EAI_SERVICE = -8"
| "gai_code EAI_MEMORY = -10"
| "gai_code EAI_SYSTEM = -11"

datatype resolution = Resolved "addrinfo list" | Unresolved gai_err

subsection \<open>Descriptors and the world\<close>

datatype sockopt = SO_REUSEADDR | SO_KEEPALIVE | SO_SNDBUF | TCP_NODELAY | IPV6_V6ONLY

record sock =
  so_domain :: int
  so_flags :: nat
  so_opts :: "(sockopt \<times> int) list"
  so_bound :: "sockaddr option"
  so_backlog :: "int option"
  so_peer :: "sockaddr option"

text \<open>
  What the kernel decides is written down beforehand: \<open>script\<close> holds the outcome of each
  coming call of \<^verbatim>\<open>socket\<close>, \<^verbatim>\<open>setsockopt\<close>, \<^verbatim>\<open>fcntl\<close>, \<^verbatim>\<open>bind\<close>, \<^verbatim>\<open>listen\<close> and
  \<^verbatim>\<open>connect\<close>, in the order of the calls (a call that finds the script empty succeeds);
  \<open>incoming\<close> holds what the coming calls of \<^verbatim>\<open>accept\<close> find; \<open>resolver\<close> is the answer
  of \<^verbatim>\<open>getaddrinfo\<close> for a host, a service and the flags of the hints. \<open>fdtab\<close> is the
  table of open descriptors, newest first (\<open>so_flags\<close> are the file status flags, which
  the kernel keeps and reports as a non-negative number), and \<open>gai_live\<close> counts the
  address lists that \<^verbatim>\<open>getaddrinfo\<close> has handed out and \<^verbatim>\<open>freeaddrinfo\<close> has not yet
  taken back. \<open>strerror\<close> and \<open>gai_strerror\<close> are the message tables of the C library.
\<close>

datatype verdict = Succeeds | Fails nat

datatype arrival = Conn sockaddr | AcceptFails nat

record world =
  fdtab :: "(int \<times> sock) list"
  errno :: nat
  gai_live :: nat
  script :: "verdict list"
  incoming :: "arrival list"
  resolver :: "string option \<Rightarrow> string option \<Rightarrow> int \<Rightarrow> resolution"
  strerror :: "nat \<Rightarrow> string"
  gai_strerror :: "int \<Rightarrow> string"

definition next_verdict :: "world \<Rightarrow> verdict \<times> world" where
  "next_verdict w = (case script w of [] \<Rightarrow> (Succeeds, w) | v # vs \<Rightarrow> (v, w\<lparr>script := vs\<rparr>))"

definition new_sock :: "int \<Rightarrow> sock" where
  "new_sock domain = \<lparr>so_domain = domain, so_flags = O_RDWR, so_opts = [], so_bound = None,
     so_backlog = None, so_peer = None\<rparr>"

definition upd_sock :: "int \<Rightarrow> (sock \<Rightarrow> sock) \<Rightarrow> world \<Rightarrow> world" where
  "upd_sock fd f w = w\<lparr>fdtab := map (\<lambda>(k, s). if k = fd then (k, f s) else (k, s)) (fdtab w)\<rparr>"

definition open_fds :: "world \<Rightarrow> int list" where
  "open_fds w = map fst (fdtab w)"

text \<open>
  A new descriptor gets the lowest number that is not in use. Among the numbers from 0 to
  the count of the numbers in use at least one is free.
\<close>

definition lowest_free :: "int list \<Rightarrow> int" where
  "lowest_free used =
     (case filter (\<lambda>n. n \<notin> set used) (map int [0..<Suc (length used)]) of
        [] \<Rightarrow> int (length used)
      | n # _ \<Rightarrow> n)"

definition sys_socket :: "world \<Rightarrow> int \<Rightarrow> int \<times> world" where
  "sys_socket w domain =
     (case next_verdict w of
        (Fails e, w1) \<Rightarrow> (-1, w1\<lparr>errno := e\<rparr>)
      | (Succeeds, w1) \<Rightarrow>
          (lowest_free (open_fds w1),
           w1\<lparr>fdtab := (lowest_free (open_fds w1), new_sock domain) # fdtab w1\<rparr>))"

text \<open>
  A call on a descriptor that is not open fails with \<^verbatim>\<open>EBADF\<close> and takes nothing from
  the script.
\<close>

definition on_fd :: "world \<Rightarrow> int \<Rightarrow> (sock \<Rightarrow> world \<Rightarrow> int \<times> world) \<Rightarrow> int \<times> world" where
  "on_fd w fd call =
     (case map_of (fdtab w) fd of
        None \<Rightarrow> (-1, w\<lparr>errno := EBADF\<rparr>)
      | Some s \<Rightarrow>
          (case next_verdict w of
             (Fails e, w1) \<Rightarrow> (-1, w1\<lparr>errno := e\<rparr>)
           | (Succeeds, w1) \<Rightarrow> call s w1))"

definition sys_close :: "world \<Rightarrow> int \<Rightarrow> world" where
  "sys_close w fd =
     (case map_of (fdtab w) fd of
        None \<Rightarrow> w\<lparr>errno := EBADF\<rparr>
      | Some s \<Rightarrow> w\<lparr>fdtab := filter (\<lambda>(k, s). k \<noteq> fd) (fdtab w)\<rparr>)"

definition sys_setsockopt :: "world \<Rightarrow> int \<Rightarrow> sockopt \<Rightarrow> int \<Rightarrow> int \<times> world" where
  "sys_setsockopt w fd opt val =
     on_fd w fd (\<lambda>s w1. (0, upd_sock fd (\<lambda>s. s\<lparr>so_opts := (opt, val) # so_opts s\<rparr>) w1))"

definition sys_fcntl_getfl :: "world \<Rightarrow> int \<Rightarrow> int \<times> world" where
  "sys_fcntl_getfl w fd = on_fd w fd (\<lambda>s w1. (int (so_flags s), w1))"

definition sys_fcntl_setfl :: "world \<Rightarrow> int \<Rightarrow> int \<Rightarrow> int \<times> world" where
  "sys_fcntl_setfl w fd flags =
     on_fd w fd (\<lambda>s w1. (0, upd_sock fd (\<lambda>s. s\<lparr>so_flags := nat flags\<rparr>) w1))"

definition sys_bind :: "world \<Rightarrow> int \<Rightarrow> sockaddr \<Rightarrow> nat \<Rightarrow> int \<times> world" where
  "sys_bind w fd sa len =
     on_fd w fd (\<lambda>s w1. (0, upd_sock fd (\<lambda>s. s\<lparr>so_bound := Some (take len sa)\<rparr>) w1))"

definition sys_listen :: "world \<Rightarrow> int \<Rightarrow> int \<Rightarrow> int \<times> world" where
  "sys_listen w fd backlog =
     on_fd w fd (\<lambda>s w1. (0, upd_sock fd (\<lambda>s. s\<lparr>so_backlog := Some backlog\<rparr>) w1))"

text \<open>
  \<^verbatim>\<open>connect\<close> on a non-blocking socket fails with \<^verbatim>\<open>EINPROGRESS\<close> while the connection
  is being made; the socket has its peer from then on.
\<close>

definition sys_connect :: "world \<Rightarrow> int \<Rightarrow> sockaddr \<Rightarrow> nat \<Rightarrow> int \<times> world" where
  "sys_connect w fd sa len =
     (case map_of (fdtab w) fd of
        None \<Rightarrow> (-1, w\<lparr>errno := EBADF\<rparr>)
      | Some s \<Rightarrow>
          (case next_verdict w of
             (Fails e, w1) \<Rightarrow>
               (-1, (if e = EINPROGRESS then upd_sock fd (\<lambda>s. s\<lparr>so_peer := Some (take len sa)\<rparr>) w1
                     else w1)\<lparr>errno := e\<rparr>)
           | (Succeeds, w1) \<Rightarrow> (0, upd_sock fd (\<lambda>s. s\<lparr>so_peer := Some (take len sa)\<rparr>) w1)))"

definition sys_getaddrinfo ::
  "world \<Rightarrow> string option \<Rightarrow> string option \<Rightarrow> int \<Rightarrow> int \<times> addrinfo list \<times> world" where
  "sys_getaddrinfo w node service hint_flags =
     (case resolver w node service hint_flags of
        Unresolved e \<Rightarrow> (gai_code e, [], w)
      | Resolved res \<Rightarrow> (0, res, w\<lparr>gai_live := Suc (gai_live w)\<rparr>))"

definition sys_freeaddrinfo :: "world \<Rightarrow> world" where
  "sys_freeaddrinfo w = w\<lparr>gai_live := gai_live w - 1\<rparr>"

text \<open>
  \<^verbatim>\<open>accept(s, sa, &len)\<close>: with nothing left in \<open>incoming\<close> the call blocks for ever
  (\<open>None\<close>). A connection gives a new descriptor; when \<open>sa\<close> is not \<^verbatim>\<open>NULL\<close> the peer's
  address is stored there, cut to the \<open>len\<close> bytes the caller announced, and \<open>len\<close>
  becomes the length of the whole address.
\<close>

definition sys_accept ::
  "world \<Rightarrow> int \<Rightarrow> byte list option \<Rightarrow> nat \<Rightarrow> (int \<times> byte list option \<times> nat \<times> world) option" where
  "sys_accept w s sa len =
     (case map_of (fdtab w) s of
        None \<Rightarrow> Some (-1, sa, len, w\<lparr>errno := EBADF\<rparr>)
      | Some lsock \<Rightarrow>
          (case incoming w of
             [] \<Rightarrow> None
           | AcceptFails e # rest \<Rightarrow> Some (-1, sa, len, w\<lparr>errno := e, incoming := rest\<rparr>)
           | Conn peer # rest \<Rightarrow>
               Some (lowest_free (open_fds w),
                     (case sa of None \<Rightarrow> None | Some buf \<Rightarrow> Some (memcpy buf peer len)),
                     length peer,
                     w\<lparr>fdtab := (lowest_free (open_fds w),
                                   (new_sock (sa_family peer))\<lparr>so_peer := Some peer\<rparr>) # fdtab w,
                       incoming := rest\<rparr>)))"


section \<open>The functions of \<^verbatim>\<open>anet.c\<close>\<close>

text \<open>
  The error sink \<^verbatim>\<open>char *err\<close> is \<open>None\<close> for \<^verbatim>\<open>NULL\<close> and \<open>Some\<close> of the text the
  buffer holds otherwise; a function returns the sink as it leaves it. The second argument
  of \<open>anetSetError\<close> is the text that the format and its arguments expand to;
  \<^verbatim>\<open>vsnprintf\<close> stores at most \<open>ANET_ERR_LEN - 1\<close> characters of it. \<^verbatim>\<open>%s\<close> prints a
  \<^verbatim>\<open>NULL\<close> string as \<^verbatim>\<open>(null)\<close>.
\<close>

definition anetSetError :: "string option \<Rightarrow> string \<Rightarrow> string option" where
  "anetSetError err msg = (case err of None \<Rightarrow> None | Some _ \<Rightarrow> Some (take (ANET_ERR_LEN - 1) msg))"

definition fmt_s :: "string option \<Rightarrow> string" where
  "fmt_s a = (case a of None \<Rightarrow> ''(null)'' | Some t \<Rightarrow> t)"

definition anetNonBlock :: "string option \<Rightarrow> int \<Rightarrow> world \<Rightarrow> int \<times> string option \<times> world" where
  "anetNonBlock err fd w =
     (case sys_fcntl_getfl w fd of
        (flags, w1) \<Rightarrow>
          if flags = -1 then
            (ANET_ERR, anetSetError err (''fcntl(F_GETFL): '' @ strerror w1 (errno w1)), w1)
          else
            (case sys_fcntl_setfl w1 fd (flags OR O_NONBLOCK) of
               (r, w2) \<Rightarrow>
                 if r = -1 then
                   (ANET_ERR,
                    anetSetError err (''fcntl(F_SETFL,O_NONBLOCK): '' @ strerror w2 (errno w2)), w2)
                 else (ANET_OK, err, w2)))"

definition anetTcpNoDelay :: "string option \<Rightarrow> int \<Rightarrow> world \<Rightarrow> int \<times> string option \<times> world" where
  "anetTcpNoDelay err fd w =
     (case sys_setsockopt w fd TCP_NODELAY 1 of
        (r, w1) \<Rightarrow>
          if r = -1 then
            (ANET_ERR, anetSetError err (''setsockopt TCP_NODELAY: '' @ strerror w1 (errno w1)), w1)
          else (ANET_OK, err, w1))"

definition anetSetSendBuffer ::
  "string option \<Rightarrow> int \<Rightarrow> int \<Rightarrow> world \<Rightarrow> int \<times> string option \<times> world" where
  "anetSetSendBuffer err fd buffsize w =
     (case sys_setsockopt w fd SO_SNDBUF buffsize of
        (r, w1) \<Rightarrow>
          if r = -1 then
            (ANET_ERR, anetSetError err (''setsockopt SO_SNDBUF: '' @ strerror w1 (errno w1)), w1)
          else (ANET_OK, err, w1))"

definition anetTcpKeepAlive :: "string option \<Rightarrow> int \<Rightarrow> world \<Rightarrow> int \<times> string option \<times> world" where
  "anetTcpKeepAlive err fd w =
     (case sys_setsockopt w fd SO_KEEPALIVE 1 of
        (r, w1) \<Rightarrow>
          if r = -1 then
            (ANET_ERR, anetSetError err (''setsockopt SO_KEEPALIVE: '' @ strerror w1 (errno w1)), w1)
          else (ANET_OK, err, w1))"

definition anetCreateSocket :: "string option \<Rightarrow> int \<Rightarrow> world \<Rightarrow> int \<times> string option \<times> world" where
  "anetCreateSocket err domain w =
     (case sys_socket w domain of
        (s, w1) \<Rightarrow>
          if s = -1 then
            (ANET_ERR, anetSetError err (''creating socket: '' @ strerror w1 (errno w1)), w1)
          else
            (case sys_setsockopt w1 s SO_REUSEADDR 1 of
               (r, w2) \<Rightarrow>
                 if r = -1 then
                   (ANET_ERR,
                    anetSetError err (''setsockopt SO_REUSEADDR: '' @ strerror w2 (errno w2)), w2)
                 else (s, err, w2)))"

text \<open>
  The out-address slot \<^verbatim>\<open>struct sockaddr_storage *ss\<close> is \<open>None\<close> for \<^verbatim>\<open>NULL\<close> and
  \<open>Some\<close> of the bytes of the caller's storage otherwise. \<^verbatim>\<open>sizeof(&ss)\<close> is the size of
  a pointer.
\<close>

definition save_sockaddr :: "byte list option \<Rightarrow> sockaddr \<Rightarrow> byte list option" where
  "save_sockaddr ss addr = (case ss of None \<Rightarrow> None | Some buf \<Rightarrow> Some (memcpy buf addr sizeof_ptr))"

text \<open>
  The loop of \<open>anetTcpGenericConnect\<close> over the list that \<^verbatim>\<open>getaddrinfo\<close> returned. The
  result is the returned value, the sink, the out-address slot and the world.
\<close>

fun anetTcpGenericConnect_loop ::
  "string option \<Rightarrow> int \<Rightarrow> byte list option \<Rightarrow> addrinfo list \<Rightarrow> world
     \<Rightarrow> int \<times> string option \<times> byte list option \<times> world" where
  "anetTcpGenericConnect_loop err flags ss [] w = (ANET_ERR, err, ss, sys_freeaddrinfo w)"
| "anetTcpGenericConnect_loop err flags ss (p # ps) w =
     (case anetCreateSocket err (ai_family p) w of
        (s, err1, w1) \<Rightarrow>
          if s = ANET_ERR then anetTcpGenericConnect_loop err1 flags ss ps w1
          else
            (case (if flags AND ANET_CONNECT_NONBLOCK \<noteq> 0 then anetNonBlock err1 s w1
                   else (ANET_OK, err1, w1)) of
               (nb, err2, w2) \<Rightarrow>
                 if nb \<noteq> ANET_OK then (ANET_ERR, err2, ss, w2)
                 else
                   (case sys_connect w2 s (ai_addr p) (ai_addrlen p) of
                      (c, w3) \<Rightarrow>
                        if c \<ge> 0 then (s, err2, save_sockaddr ss (ai_addr p), sys_freeaddrinfo w3)
                        else if errno w3 = EINPROGRESS \<and> flags AND ANET_CONNECT_NONBLOCK \<noteq> 0 then
                          (s, err2, save_sockaddr ss (ai_addr p), sys_freeaddrinfo w3)
                        else
                          anetTcpGenericConnect_loop
                            (anetSetError err2 (''connect: '' @ strerror w3 (errno w3)))
                            flags ss ps (sys_close w3 s))))"

definition anetTcpGenericConnect ::
  "string option \<Rightarrow> string option \<Rightarrow> string option \<Rightarrow> int \<Rightarrow> byte list option \<Rightarrow> world
     \<Rightarrow> int \<times> string option \<times> byte list option \<times> world" where
  "anetTcpGenericConnect err addr service flags ss w =
     (case sys_getaddrinfo w addr service 0 of
        (gai_error, gai_result, w1) \<Rightarrow>
          if gai_error \<noteq> 0 then
            (ANET_ERR,
             anetSetError err (''can't resolve '' @ fmt_s addr @ '': '' @ gai_strerror w1 gai_error),
             ss, w1)
          else anetTcpGenericConnect_loop err flags ss gai_result w1)"

definition anetTcpConnect ::
  "string option \<Rightarrow> string option \<Rightarrow> string option \<Rightarrow> byte list option \<Rightarrow> world
     \<Rightarrow> int \<times> string option \<times> byte list option \<times> world" where
  "anetTcpConnect err addr service ss w = anetTcpGenericConnect err addr service ANET_CONNECT_NONE ss w"

definition anetTcpNonBlockConnect ::
  "string option \<Rightarrow> string option \<Rightarrow> string option \<Rightarrow> byte list option \<Rightarrow> world
     \<Rightarrow> int \<times> string option \<times> byte list option \<times> world" where
  "anetTcpNonBlockConnect err addr service ss w =
     anetTcpGenericConnect err addr service ANET_CONNECT_NONBLOCK ss w"

text \<open>\<open>anetGetaddrinfo\<close> hands the list to its caller: the third component is \<^verbatim>\<open>*gai_result\<close>.\<close>

definition anetGetaddrinfo ::
  "string option \<Rightarrow> string option \<Rightarrow> string option \<Rightarrow> world
     \<Rightarrow> int \<times> string option \<times> addrinfo list \<times> world" where
  "anetGetaddrinfo err addr service w =
     (case sys_getaddrinfo w addr service 0 of
        (gai_error, gai_result, w1) \<Rightarrow>
          if gai_error \<noteq> 0 then
            (ANET_ERR,
             anetSetError err (''can't resolve '' @ fmt_s addr @ '': '' @ gai_strerror w1 gai_error),
             gai_result, w1)
          else (0, err, gai_result, w1))"

definition anetTcpNonBlockConnectAddr ::
  "string option \<Rightarrow> addrinfo \<Rightarrow> byte list option \<Rightarrow> world
     \<Rightarrow> int \<times> string option \<times> byte list option \<times> world" where
  "anetTcpNonBlockConnectAddr err p ss w =
     (case anetCreateSocket err (ai_family p) w of
        (s, err1, w1) \<Rightarrow>
          if s = ANET_ERR then (ANET_ERR, err1, ss, w1)
          else
            (case anetNonBlock err1 s w1 of
               (nb, err2, w2) \<Rightarrow>
                 if nb \<noteq> ANET_OK then (ANET_ERR, err2, ss, w2)
                 else
                   (case sys_connect w2 s (ai_addr p) (ai_addrlen p) of
                      (c, w3) \<Rightarrow>
                        if c \<ge> 0 then (s, err2, save_sockaddr ss (ai_addr p), w3)
                        else if errno w3 = EINPROGRESS then (s, err2, save_sockaddr ss (ai_addr p), w3)
                        else
                          (ANET_ERR, anetSetError err2 (''connect: '' @ strerror w3 (errno w3)), ss,
                           sys_close w3 s))))"

definition anetListen ::
  "string option \<Rightarrow> int \<Rightarrow> sockaddr \<Rightarrow> nat \<Rightarrow> world \<Rightarrow> int \<times> string option \<times> world" where
  "anetListen err s sa len w =
     (let w0 = (if sa_family sa = AF_INET6 then snd (sys_setsockopt w s IPV6_V6ONLY 1) else w)
      in case sys_bind w0 s sa len of
           (b, w1) \<Rightarrow>
             if b = -1 then
               (ANET_ERR, anetSetError err (''bind: '' @ strerror w1 (errno w1)), sys_close w1 s)
             else
               (case sys_listen w1 s 511 of
                  (l, w2) \<Rightarrow>
                    if l = -1 then
                      (ANET_ERR, anetSetError err (''listen: '' @ strerror w2 (errno w2)),
                       sys_close w2 s)
                    else (ANET_OK, err, w2)))"

text \<open>
  The loop of \<open>anetTcpServer\<close>. The array \<^verbatim>\<open>int *fds\<close> is the list of its entries, and
  \<^verbatim>\<open>fds[i++] = s\<close> stores at index \<open>i\<close>; the loop runs while \<^verbatim>\<open>i < nfds\<close>, so with an
  array of \<^verbatim>\<open>nfds\<close> entries or more the index is in range. The result is the sink, the
  array, \<open>i\<close> and the world when the loop ends.
\<close>

fun anetTcpServer_loop ::
  "string option \<Rightarrow> addrinfo list \<Rightarrow> int list \<Rightarrow> int \<Rightarrow> int \<Rightarrow> world
     \<Rightarrow> string option \<times> int list \<times> int \<times> world" where
  "anetTcpServer_loop err [] fds nfds i w = (err, fds, i, w)"
| "anetTcpServer_loop err (p # ps) fds nfds i w =
     (if i < nfds then
        (case anetCreateSocket err (ai_family p) w of
           (s, err1, w1) \<Rightarrow>
             if s = ANET_ERR then anetTcpServer_loop err1 ps fds nfds i w1
             else
               (case anetListen err1 s (ai_addr p) (ai_addrlen p) w1 of
                  (r, err2, w2) \<Rightarrow>
                    if r = ANET_ERR then anetTcpServer_loop err2 ps fds nfds i w2
                    else anetTcpServer_loop err2 ps (fds[nat i := s]) nfds (i + 1) w2))
      else (err, fds, i, w))"

definition anetTcpServer ::
  "string option \<Rightarrow> string option \<Rightarrow> string option \<Rightarrow> int list \<Rightarrow> int \<Rightarrow> world
     \<Rightarrow> int \<times> string option \<times> int list \<times> world" where
  "anetTcpServer err service bindaddr fds nfds w =
     (case sys_getaddrinfo w bindaddr service AI_PASSIVE of
        (gai_error, gai_result, w1) \<Rightarrow>
          if gai_error \<noteq> 0 then
            (ANET_ERR,
             anetSetError err (''can't resolve '' @ fmt_s bindaddr @ '': '' @ gai_strerror w1 gai_error),
             fds, w1)
          else
            (case anetTcpServer_loop err gai_result fds nfds 0 w1 of
               (err', fds', i, w2) \<Rightarrow>
                 ((if i > 0 then i else ANET_ERR), err', fds', sys_freeaddrinfo w2)))"

text \<open>
  \<open>anetGenericAccept\<close> loops while \<^verbatim>\<open>accept\<close> fails with \<^verbatim>\<open>EINTR\<close>. \<open>None\<close> is a call
  that never returns. Each call of \<^verbatim>\<open>accept\<close> that returns takes one entry of
  \<open>incoming\<close>, which is the measure of the loop.
\<close>

function anetGenericAccept ::
  "string option \<Rightarrow> int \<Rightarrow> byte list option \<Rightarrow> nat \<Rightarrow> world
     \<Rightarrow> (int \<times> string option \<times> byte list option \<times> nat \<times> world) option" where
  "anetGenericAccept err s sa len w =
     (case sys_accept w s sa len of
        None \<Rightarrow> None
      | Some (fd, sa', len', w') \<Rightarrow>
          if fd = -1 then
            (if errno w' = EINTR then anetGenericAccept err s sa' len' w'
             else Some (fd, anetSetError err (''accept: '' @ strerror w' (errno w')), sa', len', w'))
          else Some (fd, err, sa', len', w'))"
  by pat_completeness auto
termination
proof (relation "measure (\<lambda>(err, s, sa, len, w). length (incoming w))")
  show "wf (measure (\<lambda>(err, s, sa, len, w). length (incoming w)))"
    by simp
next
  fix err :: "string option" and s :: int and sa sa' :: "byte list option" and len len' :: nat
    and w w' :: world and x2 :: "int \<times> byte list option \<times> nat \<times> world" and fd :: int
    and y :: "byte list option \<times> nat \<times> world" and z :: "nat \<times> world"
  assume "sys_accept w s sa len = Some x2" and "(fd, y) = x2" and "(sa', z) = y" and "(len', w') = z"
    and "errno w' = EINTR"
  then have "sys_accept w s sa len = Some (fd, sa', len', w')" and "errno w' = EINTR" by simp_all
  then show "((err, s, sa', len', w'), (err, s, sa, len, w))
               \<in> measure (\<lambda>(err, s, sa, len, w). length (incoming w))"
    by (auto simp: sys_accept_def EINTR_def EBADF_def split: option.splits list.splits arrival.splits)
qed

declare anetGenericAccept.simps [simp del]

definition anetTcpAccept ::
  "string option \<Rightarrow> int \<Rightarrow> byte list option \<Rightarrow> world
     \<Rightarrow> (int \<times> string option \<times> byte list option \<times> world) option" where
  "anetTcpAccept err s ss w =
     (case anetGenericAccept err s ss sizeof_ptr w of
        None \<Rightarrow> None
      | Some (fd, err', ss', sslen, w') \<Rightarrow>
          if fd = ANET_ERR then Some (ANET_ERR, err', ss', w') else Some (fd, err', ss', w'))"


section \<open>Address stringification: \<open>anetAddrStrdup\<close>\<close>

subsection \<open>The presentation converter of the C library\<close>

text \<open>
  \<^verbatim>\<open>inet_ntop(3)\<close> is not part of \<^verbatim>\<open>anet.c\<close>; this is the converter of the BSD resolver
  library, which the GNU C library uses. An IPv4 address is printed with the format
  \<^verbatim>\<open>%u.%u.%u.%u\<close>. An IPv6 address is read as eight 16-bit words in network order; the
  longest run of two or more zero words (the first of the longest) is printed as
  \<^verbatim>\<open>::\<close>, the other words with \<^verbatim>\<open>%x\<close> and colons between them, and the last 32 bits in
  IPv4 form when the address starts with a run of six zero words, or of five followed by
  \<^verbatim>\<open>ffff\<close>. The call fails (\<open>None\<close>; the buffer is not written) when the text and its
  terminating zero do not fit in \<open>sz\<close> bytes, or for another family.
\<close>

definition digit_char :: "nat \<Rightarrow> char" where
  "digit_char d = (if d < 10 then char_of (48 + d) else char_of (87 + d))"

fun dec :: "nat \<Rightarrow> string" where
  "dec n = (if n < 10 then [digit_char n] else dec (n div 10) @ [digit_char (n mod 10)])"

fun hex :: "nat \<Rightarrow> string" where
  "hex n = (if n < 16 then [digit_char n] else hex (n div 16) @ [digit_char (n mod 16)])"

declare dec.simps [simp del] hex.simps [simp del]

fun dotted :: "byte list \<Rightarrow> string" where
  "dotted [] = []"
| "dotted [b] = dec (unat b)"
| "dotted (b # bs) = dec (unat b) @ ''.'' @ dotted bs"

definition inet_ntop4 :: "byte list \<Rightarrow> string" where
  "inet_ntop4 src = dotted (take 4 src)"

fun words16 :: "byte list \<Rightarrow> nat list" where
  "words16 (hi # lo # bs) = (unat hi * 256 + unat lo) # words16 bs"
| "words16 bs = []"

text \<open>
  The search for the run: \<open>cur\<close> is the run of zero words being read, \<open>best\<close> the
  longest one completed so far, each as (base, length); a later run replaces \<open>best\<close>
  only if it is longer.
\<close>

definition better_run :: "(nat \<times> nat) option \<Rightarrow> nat \<times> nat \<Rightarrow> (nat \<times> nat) option" where
  "better_run best cur =
     (case best of None \<Rightarrow> Some cur | Some b \<Rightarrow> if snd cur > snd b then Some cur else Some b)"

fun scan_runs ::
  "nat list \<Rightarrow> nat \<Rightarrow> (nat \<times> nat) option \<Rightarrow> (nat \<times> nat) option \<Rightarrow> (nat \<times> nat) option" where
  "scan_runs [] i best cur = (case cur of None \<Rightarrow> best | Some c \<Rightarrow> better_run best c)"
| "scan_runs (w # ws) i best cur =
     (if w = 0 then
        (case cur of
           None \<Rightarrow> scan_runs ws (Suc i) best (Some (i, 1))
         | Some (b, l) \<Rightarrow> scan_runs ws (Suc i) best (Some (b, Suc l)))
      else
        (case cur of
           None \<Rightarrow> scan_runs ws (Suc i) best None
         | Some c \<Rightarrow> scan_runs ws (Suc i) (better_run best c) None))"

definition best_run :: "nat list \<Rightarrow> (nat \<times> nat) option" where
  "best_run ws =
     (case scan_runs ws 0 None None of
        None \<Rightarrow> None
      | Some (b, l) \<Rightarrow> if l < 2 then None else Some (b, l))"

definition in_run :: "(nat \<times> nat) option \<Rightarrow> nat \<Rightarrow> bool" where
  "in_run run i = (case run of None \<Rightarrow> False | Some (b, l) \<Rightarrow> b \<le> i \<and> i < b + l)"

definition run_base :: "(nat \<times> nat) option \<Rightarrow> nat \<Rightarrow> bool" where
  "run_base run i = (case run of None \<Rightarrow> False | Some (b, l) \<Rightarrow> i = b)"

definition encapsulated :: "(nat \<times> nat) option \<Rightarrow> nat list \<Rightarrow> bool" where
  "encapsulated run ws =
     (case run of
        None \<Rightarrow> False
      | Some (b, l) \<Rightarrow> b = 0 \<and> (l = 6 \<or> (l = 5 \<and> 5 < length ws \<and> ws ! 5 = 65535)))"

text \<open>
  The printing loop from word \<open>i\<close> on; \<open>ws\<close> are the words from \<open>i\<close> to the end, \<open>enc\<close>
  says whether the address encapsulates an IPv4 address and \<open>v4\<close> is that address printed.
\<close>

fun print_words :: "(nat \<times> nat) option \<Rightarrow> bool \<Rightarrow> string \<Rightarrow> nat list \<Rightarrow> nat \<Rightarrow> string" where
  "print_words run enc v4 [] i = []"
| "print_words run enc v4 (w # ws) i =
     (if in_run run i then
        (if run_base run i then '':'' else []) @ print_words run enc v4 ws (Suc i)
      else
        (if i \<noteq> 0 then '':'' else []) @
        (if i = 6 \<and> enc then v4 else hex w @ print_words run enc v4 ws (Suc i)))"

definition inet_ntop6 :: "byte list \<Rightarrow> string" where
  "inet_ntop6 src =
     (let ws = words16 (take 16 src); run = best_run ws
      in print_words run (encapsulated run ws) (inet_ntop4 (drop 12 src)) ws 0 @
         (case run of None \<Rightarrow> [] | Some (b, l) \<Rightarrow> if b + l = 8 then '':'' else []))"

definition inet_ntop :: "int \<Rightarrow> byte list \<Rightarrow> nat \<Rightarrow> string option" where
  "inet_ntop af src sz =
     (if af = AF_INET then (if length (inet_ntop4 src) < sz then Some (inet_ntop4 src) else None)
      else if af = AF_INET6 then
        (if length (inet_ntop6 src) < sz then Some (inet_ntop6 src) else None)
      else None)"

subsection \<open>The heap\<close>

text \<open>
  The heap is the list of its blocks, newest first: the address of a block and the string
  it holds, \<open>None\<close> while the block has never been written. \<open>allocs\<close> holds the answers
  of the allocator to the coming requests: \<open>True\<close> when it serves the request, \<open>False\<close>
  when it has no memory for it; once the list is used up every request is served. A
  request that is served returns an address that is not \<^verbatim>\<open>NULL\<close> (0) and not in use; a
  request that is not served returns \<^verbatim>\<open>NULL\<close> and leaves the blocks as they are.
\<close>

record heap =
  blocks :: "(nat \<times> string option) list"
  allocs :: "bool list"

definition next_alloc :: "heap \<Rightarrow> bool \<times> heap" where
  "next_alloc h = (case allocs h of [] \<Rightarrow> (True, h) | a # as \<Rightarrow> (a, h\<lparr>allocs := as\<rparr>))"

definition fresh_block :: "heap \<Rightarrow> nat" where
  "fresh_block h = Suc (fold max (map fst (blocks h)) 0)"

definition malloc :: "heap \<Rightarrow> nat \<Rightarrow> nat \<times> heap" where
  "malloc h n =
     (case next_alloc h of
        (False, h1) \<Rightarrow> (0, h1)
      | (True, h1) \<Rightarrow> (fresh_block h1, h1\<lparr>blocks := (fresh_block h1, None) # blocks h1\<rparr>))"

definition strdup :: "heap \<Rightarrow> string \<Rightarrow> nat \<times> heap" where
  "strdup h t =
     (case next_alloc h of
        (False, h1) \<Rightarrow> (0, h1)
      | (True, h1) \<Rightarrow> (fresh_block h1, h1\<lparr>blocks := (fresh_block h1, Some t) # blocks h1\<rparr>))"

text \<open>
  \<^verbatim>\<open>inet_ntop(af, src, s, size)\<close> with \<open>s\<close> as destination. When the conversion succeeds
  the text is copied to \<open>s\<close>; if \<open>s\<close> is not a block of the heap, as is \<^verbatim>\<open>NULL\<close>, that
  write is outside every object and the program does not go on: the result is \<open>None\<close>.
\<close>

definition inet_ntop_into :: "heap \<Rightarrow> nat \<Rightarrow> int \<Rightarrow> byte list \<Rightarrow> nat \<Rightarrow> heap option" where
  "inet_ntop_into h s af src sz =
     (case inet_ntop af src sz of
        None \<Rightarrow> Some h
      | Some t \<Rightarrow>
          if s \<in> fst ` set (blocks h) then
            Some (h\<lparr>blocks := map (\<lambda>(a, c). if a = s then (a, Some t) else (a, c)) (blocks h)\<rparr>)
          else None)"

subsection \<open>The function\<close>

text \<open>
  The argument is \<open>None\<close> for \<^verbatim>\<open>NULL\<close>. \<open>sin_addr\<close> is at offset 4 of a
  \<^verbatim>\<open>sockaddr_in\<close> and \<open>sin6_addr\<close> at offset 8 of a \<^verbatim>\<open>sockaddr_in6\<close>. The result is the
  returned pointer and the heap, or \<open>None\<close> when the call does not return. The pointer
  that \<^verbatim>\<open>malloc\<close> returns is passed to \<^verbatim>\<open>inet_ntop\<close> as it is, and the one that \<^verbatim>\<open>strdup\<close>
  returns is returned as it is.
\<close>

definition sin_addr :: "sockaddr \<Rightarrow> byte list" where
  "sin_addr sa = take 4 (drop 4 sa)"

definition sin6_addr :: "sockaddr \<Rightarrow> byte list" where
  "sin6_addr sa = take 16 (drop 8 sa)"

definition has_family :: "sockaddr option \<Rightarrow> int \<Rightarrow> bool" where
  "has_family res af = (case res of None \<Rightarrow> False | Some sa \<Rightarrow> sa_family sa = af)"

definition anetAddrStrdup :: "heap \<Rightarrow> sockaddr option \<Rightarrow> (nat \<times> heap) option" where
  "anetAddrStrdup h res =
     (if has_family res AF_INET then
        (case malloc h INET_ADDRSTRLEN of
           (s, h1) \<Rightarrow>
             map_option (Pair s) (inet_ntop_into h1 s AF_INET (sin_addr (the res)) INET_ADDRSTRLEN))
      else if has_family res AF_INET6 then
        (case malloc h INET6_ADDRSTRLEN of
           (s, h1) \<Rightarrow>
             map_option (Pair s)
               (inet_ntop_into h1 s AF_INET6 (sin6_addr (the res)) INET6_ADDRSTRLEN))
      else Some (strdup h ''NOT_AN_ADDRESS''))"


section \<open>What a presentation string denotes\<close>

text \<open>
  The reading direction, independent of the converter above: the address that a text in
  dotted-quad or in colon-hex form stands for (RFC 4291, section 2.2). A text is the
  presentation of an address when it reads as that address.
\<close>

definition digit_value :: "char \<Rightarrow> nat option" where
  "digit_value c = map_of (zip ''0123456789abcdefABCDEF'' ([0..<16] @ [10..<16])) c"

text \<open>
  The number that a non-empty string of digits below \<open>base\<close> writes, the most significant
  digit first.
\<close>

definition numeral_value :: "nat \<Rightarrow> string \<Rightarrow> nat option" where
  "numeral_value base ds =
     (if ds \<noteq> [] \<and> list_all (\<lambda>c. case digit_value c of None \<Rightarrow> False | Some d \<Rightarrow> d < base) ds
      then Some (foldl (\<lambda>a c. a * base + the (digit_value c)) 0 ds)
      else None)"

text \<open>
  A field of a dotted quad is a decimal number up to 255 with no leading zero; a group of a
  colon-hex text is one to four hexadecimal digits and stands for two bytes, the high one
  first.
\<close>

definition dec_octet :: "string \<Rightarrow> byte option" where
  "dec_octet s =
     (case numeral_value 10 s of
        None \<Rightarrow> None
      | Some n \<Rightarrow> if n \<le> 255 \<and> (hd s = CHR ''0'' \<longrightarrow> s = ''0'') then Some (of_nat n) else None)"

definition hex_group :: "string \<Rightarrow> byte list option" where
  "hex_group s =
     (case numeral_value 16 s of
        None \<Rightarrow> None
      | Some n \<Rightarrow> if length s \<le> 4 then Some [of_nat (n div 256), of_nat (n mod 256)] else None)"

text \<open>The fields of a text between the occurrences of the separator \<open>c\<close>.\<close>

fun fields :: "char \<Rightarrow> string \<Rightarrow> string list" where
  "fields c [] = [[]]"
| "fields c (x # xs) =
     (if x = c then [] # fields c xs else (x # hd (fields c xs)) # tl (fields c xs))"

definition dotted_quad_value :: "string \<Rightarrow> byte list option" where
  "dotted_quad_value t =
     (case map dec_octet (fields CHR ''.'' t) of
        [Some a, Some b, Some c, Some d] \<Rightarrow> Some [a, b, c, d]
      | _ \<Rightarrow> None)"

text \<open>
  \<open>cut_gap\<close> cuts a text at its first \<^verbatim>\<open>::\<close>. \<open>groups_value v4 fs\<close> is the bytes that the
  fields \<open>fs\<close> stand for, each of them a group; if \<open>v4\<close> holds the last one may be a dotted
  quad instead. In a colon-hex text the \<^verbatim>\<open>::\<close>, which may occur once, stands for the
  zero bytes that are missing to sixteen, at least two; a text without it has all sixteen.
\<close>

fun cut_gap :: "string \<Rightarrow> (string \<times> string) option" where
  "cut_gap (a # b # xs) =
     (if a = CHR '':'' \<and> b = CHR '':'' then Some ([], xs)
      else map_option (\<lambda>(l, r). (a # l, r)) (cut_gap (b # xs)))"
| "cut_gap xs = None"

fun groups_value :: "bool \<Rightarrow> string list \<Rightarrow> byte list option" where
  "groups_value v4 [] = Some []"
| "groups_value v4 [f] =
     (case hex_group f of Some g \<Rightarrow> Some g | None \<Rightarrow> if v4 then dotted_quad_value f else None)"
| "groups_value v4 (f # fs) =
     (case hex_group f of None \<Rightarrow> None | Some g \<Rightarrow> map_option ((@) g) (groups_value v4 fs))"

definition part_value :: "bool \<Rightarrow> string \<Rightarrow> byte list option" where
  "part_value v4 s = (if s = [] then Some [] else groups_value v4 (fields CHR '':'' s))"

definition colon_hex_value :: "string \<Rightarrow> byte list option" where
  "colon_hex_value t =
     (case cut_gap t of
        None \<Rightarrow>
          (case part_value True t of
             None \<Rightarrow> None
           | Some bs \<Rightarrow> if length bs = 16 then Some bs else None)
      | Some (l, r) \<Rightarrow>
          (case (part_value False l, part_value True r) of
             (Some a, Some b) \<Rightarrow>
               if length a + length b \<le> 14
               then Some (a @ replicate (16 - (length a + length b)) 0 @ b) else None
           | _ \<Rightarrow> None))"

text \<open>
  A socket address as the caller of \<open>anetAddrStrdup\<close> has it: an object of the size of
  its family's structure. \<open>presents res t\<close>: the text \<open>t\<close> is what the claim C5 names for
  the argument \<open>res\<close>; the address bytes are the four at offset 4 of an IPv4 socket address
  and the sixteen at offset 8 of an IPv6 one. \<open>served h\<close>: the allocator serves the next
  request.
\<close>

definition whole_sockaddr :: "sockaddr option \<Rightarrow> bool" where
  "whole_sockaddr res =
     (case res of
        None \<Rightarrow> True
      | Some sa \<Rightarrow>
          (sa_family sa = AF_INET \<longrightarrow> 16 \<le> length sa) \<and>
          (sa_family sa = AF_INET6 \<longrightarrow> 28 \<le> length sa))"

definition presents :: "sockaddr option \<Rightarrow> string \<Rightarrow> bool" where
  "presents res t =
     (case res of
        None \<Rightarrow> t = ''NOT_AN_ADDRESS''
      | Some sa \<Rightarrow>
          if sa_family sa = AF_INET then dotted_quad_value t = Some (take 4 (drop 4 sa))
          else if sa_family sa = AF_INET6 then colon_hex_value t = Some (take 16 (drop 8 sa))
          else t = ''NOT_AN_ADDRESS'')"

definition served :: "heap \<Rightarrow> bool" where
  "served h = (case allocs h of [] \<Rightarrow> True | a # as \<Rightarrow> a)"

text \<open>
  For the proofs: the groups of a text with colons between them, the same with a colon
  before each, and the two bytes of a 16-bit word.
\<close>

fun colons :: "string list \<Rightarrow> string" where
  "colons [] = []"
| "colons [g] = g"
| "colons (g # gs) = g @ '':'' @ colons gs"

definition colon_each :: "string list \<Rightarrow> string" where
  "colon_each gs = concat (map (\<lambda>g. CHR '':'' # g) gs)"

definition bytes_of :: "nat \<Rightarrow> byte list" where
  "bytes_of w = [of_nat (w div 256), of_nat (w mod 256)]"

text \<open>\<open>zero_run ws (b, l)\<close>: the \<open>l\<close> words of \<open>ws\<close> from index \<open>b\<close> on exist and are zero.\<close>

definition zero_run :: "nat list \<Rightarrow> nat \<times> nat \<Rightarrow> bool" where
  "zero_run ws r = (fst r + snd r \<le> length ws \<and> (\<forall>j. fst r \<le> j \<and> j < fst r + snd r \<longrightarrow> ws ! j = 0))"


section \<open>Concrete worlds\<close>

text \<open>
  Message tables, addresses and worlds for concrete runs. \<open>sample_world cands vs arr\<close>
  has the descriptors 0, 1 and 2 open (the standard streams, entered in the table with the
  family 0), resolves every name to \<open>cands\<close>, and answers the coming system calls with
  \<open>vs\<close> and the coming calls of \<^verbatim>\<open>accept\<close> with \<open>arr\<close>. \<open>sample_listener\<close> has a socket
  listening on descriptor 3 as well.
\<close>

definition sample_strerror :: "nat \<Rightarrow> string" where
  "sample_strerror e =
     (if e = 1 then ''Operation not permitted''
      else if e = 4 then ''Interrupted system call''
      else if e = 24 then ''Too many open files''
      else if e = 98 then ''Address already in use''
      else if e = 111 then ''Connection refused''
      else if e = 115 then ''Operation now in progress''
      else ''Unknown error'')"

definition sample_gai_strerror :: "int \<Rightarrow> string" where
  "sample_gai_strerror c = (if c = -2 then ''Name or service not known'' else ''Unknown error'')"

definition loopback4 :: addrinfo where
  "loopback4 = \<lparr>ai_family = AF_INET,
     ai_addr = [2, 0, 0, 80, 127, 0, 0, 1, 0, 0, 0, 0, 0, 0, 0, 0], ai_addrlen = 16\<rparr>"

definition loopback6 :: addrinfo where
  "loopback6 = \<lparr>ai_family = AF_INET6,
     ai_addr = [10, 0, 0, 80, 0, 0, 0, 0,
                0, 0, 0, 0, 0, 0, 0, 0, 0, 0, 0, 0, 0, 0, 0, 1, 0, 0, 0, 0],
     ai_addrlen = 28\<rparr>"

definition peer6 :: sockaddr where
  "peer6 = [10, 0, 156, 64, 0, 0, 0, 0,
            32, 1, 13, 184, 0, 0, 0, 0, 0, 0, 0, 0, 0, 0, 0, 7, 0, 0, 0, 0]"

definition stdio :: "(int \<times> sock) list" where
  "stdio = [(0, new_sock AF_UNSPEC), (1, new_sock AF_UNSPEC), (2, new_sock AF_UNSPEC)]"

definition sample_world :: "addrinfo list \<Rightarrow> verdict list \<Rightarrow> arrival list \<Rightarrow> world" where
  "sample_world cands vs arr = \<lparr>fdtab = stdio, errno = 0, gai_live = 0, script = vs,
     incoming = arr, resolver = (\<lambda>node service flags. Resolved cands),
     strerror = sample_strerror, gai_strerror = sample_gai_strerror\<rparr>"

definition sample_listener :: "arrival list \<Rightarrow> world" where
  "sample_listener arr = (sample_world [] [] arr)
     \<lparr>fdtab := (3, (new_sock AF_INET6)\<lparr>so_bound := Some (ai_addr loopback6),
                                           so_backlog := Some 511\<rparr>) # stdio\<rparr>"

text \<open>
  Socket addresses for \<open>anetAddrStrdup\<close>: 192.0.2.7, the IPv4-mapped form of it and an
  address of the family \<^verbatim>\<open>AF_UNIX\<close>; a heap with nothing allocated whose allocator serves
  every request, and one with a block in use whose allocator has no memory for the next
  request.
\<close>

definition doc_addr4 :: sockaddr where
  "doc_addr4 = [2, 0, 0, 0, 192, 0, 2, 7, 0, 0, 0, 0, 0, 0, 0, 0]"

definition mapped6 :: sockaddr where
  "mapped6 = [10, 0, 0, 0, 0, 0, 0, 0,
              0, 0, 0, 0, 0, 0, 0, 0, 0, 0, 255, 255, 192, 0, 2, 7, 0, 0, 0, 0]"

definition unix_addr :: sockaddr where
  "unix_addr = [1, 0, 47, 116, 109, 112, 47, 115, 0]"

definition empty_heap :: heap where
  "empty_heap = \<lparr>blocks = [], allocs = []\<rparr>"

definition exhausted_heap :: heap where
  "exhausted_heap = \<lparr>blocks = [(1, Some ''readsb'')], allocs = [False]\<rparr>"


section \<open>Properties stated about the functions\<close>

subsection \<open>The error sink\<close>

text \<open>
  The texts that the formats of \<^verbatim>\<open>anet.c\<close> begin with. The sink holds one message when
  it holds a text that fits its capacity and begins as one of the formats does; every
  write starts at the beginning of the buffer, so what was there before is gone.
\<close>

definition message_prefixes :: "string list" where
  "message_prefixes =
     [''fcntl(F_GETFL): '', ''fcntl(F_SETFL,O_NONBLOCK): '', ''setsockopt TCP_NODELAY: '',
      ''setsockopt SO_SNDBUF: '', ''setsockopt SO_KEEPALIVE: '', ''creating socket: '',
      ''setsockopt SO_REUSEADDR: '', ''can't resolve '', ''connect: '', ''bind: '',
      ''listen: '', ''accept: '']"

definition one_message :: "string option \<Rightarrow> bool" where
  "one_message err =
     (case err of
        None \<Rightarrow> False
      | Some m \<Rightarrow> length m < ANET_ERR_LEN \<and> list_ex (\<lambda>p. prefix p m) message_prefixes)"

text \<open>
  \<open>sink_single err r err'\<close>: a call that got the sink \<open>err\<close> and returned \<open>r\<close> left
  it untouched if \<open>r\<close> is not \<open>ANET_ERR\<close>, and holding one message if it is.
\<close>

definition sink_single :: "string option \<Rightarrow> int \<Rightarrow> string option \<Rightarrow> bool" where
  "sink_single err r err' = (if r = ANET_ERR then one_message err' else err' = err)"

definition sink_kept_or_one :: "string option \<Rightarrow> string option \<Rightarrow> bool" where
  "sink_kept_or_one err err' = (err' = err \<or> one_message err')"

text \<open>No system call of the script fails.\<close>

definition all_succeed :: "world \<Rightarrow> bool" where
  "all_succeed w = list_all (\<lambda>v. v = Succeeds) (script w)"

text \<open>
  \<open>answer vs n\<close> is the answer of the script \<open>vs\<close> to the \<open>n\<close>-th coming system call,
  counted from 0; a script that is used up lets every call succeed.

  The first candidate of a connect call makes the system calls \<^verbatim>\<open>socket\<close>,
  \<^verbatim>\<open>setsockopt(SO_REUSEADDR)\<close>, for a non-blocking connect \<^verbatim>\<open>fcntl(F_GETFL)\<close> and
  \<^verbatim>\<open>fcntl(F_SETFL)\<close>, and \<^verbatim>\<open>connect\<close>. \<open>first_candidate_connects flags vs\<close>: none of them
  fails, or, for a non-blocking connect, only \<^verbatim>\<open>connect\<close> does, with \<^verbatim>\<open>EINPROGRESS\<close>.

  A candidate of a server call makes the system calls \<^verbatim>\<open>socket\<close>,
  \<^verbatim>\<open>setsockopt(SO_REUSEADDR)\<close>, for an IPv6 address \<^verbatim>\<open>setsockopt(IPV6_V6ONLY)\<close>, whose result
  the code does not look at, \<^verbatim>\<open>bind\<close> and \<^verbatim>\<open>listen\<close>. \<open>every_candidate_listens ps nfds i vs\<close>:
  for every candidate of \<open>ps\<close> that the loop comes to, starting with \<open>i\<close> listeners of
  at most \<open>nfds\<close>, none of the calls whose result the code looks at fails.
\<close>

definition answer :: "verdict list \<Rightarrow> nat \<Rightarrow> verdict" where
  "answer vs n = (if n < length vs then vs ! n else Succeeds)"

definition first_candidate_connects :: "int \<Rightarrow> verdict list \<Rightarrow> bool" where
  "first_candidate_connects flags vs =
     (if flags AND ANET_CONNECT_NONBLOCK \<noteq> 0 then
        answer vs 0 = Succeeds \<and> answer vs 1 = Succeeds \<and> answer vs 2 = Succeeds \<and>
        answer vs 3 = Succeeds \<and> (answer vs 4 = Succeeds \<or> answer vs 4 = Fails EINPROGRESS)
      else answer vs 0 = Succeeds \<and> answer vs 1 = Succeeds \<and> answer vs 2 = Succeeds)"

fun every_candidate_listens :: "addrinfo list \<Rightarrow> int \<Rightarrow> int \<Rightarrow> verdict list \<Rightarrow> bool" where
  "every_candidate_listens [] nfds i vs = True"
| "every_candidate_listens (p # ps) nfds i vs =
     (if i < nfds then
        (if sa_family (ai_addr p) = AF_INET6 then
           answer vs 0 = Succeeds \<and> answer vs 1 = Succeeds \<and> answer vs 3 = Succeeds \<and>
           answer vs 4 = Succeeds \<and> every_candidate_listens ps nfds (i + 1) (drop 5 vs)
         else
           answer vs 0 = Succeeds \<and> answer vs 1 = Succeeds \<and> answer vs 2 = Succeeds \<and>
           answer vs 3 = Succeeds \<and> every_candidate_listens ps nfds (i + 1) (drop 4 vs))
      else True)"

subsection \<open>Descriptors and listeners\<close>

text \<open>
  \<open>reusable\<close> marks a socket on which \<^verbatim>\<open>SO_REUSEADDR\<close> was set, which is the last step
  of \<open>anetCreateSocket\<close>; \<open>listening a\<close> one that is bound to \<open>a\<close> and listens with
  the backlog of 511. \<open>bound_addr p\<close> is the address \<^verbatim>\<open>bind\<close> is given for the candidate
  \<open>p\<close>, and \<open>count_fails w\<close> the number of failures the script of \<open>w\<close> still holds.
\<close>

definition reusable :: "sock \<Rightarrow> bool" where
  "reusable sk = (so_opts sk \<noteq> [] \<and> last (so_opts sk) = (SO_REUSEADDR, 1))"

definition listening :: "sockaddr \<Rightarrow> sock \<Rightarrow> bool" where
  "listening a sk = (so_bound sk = Some a \<and> so_backlog sk = Some 511)"

definition bound_addr :: "addrinfo \<Rightarrow> sockaddr" where
  "bound_addr p = take (ai_addrlen p) (ai_addr p)"

definition count_fails :: "world \<Rightarrow> nat" where
  "count_fails w = length (filter (\<lambda>v. v \<noteq> Succeeds) (script w))"


section \<open>Proofs: full-count byte I/O\<close>

lemma posix_ioD:
  assumes "posix_io io" and "0 < k" and "io w fd buf k = (r, w')"
  shows "-1 \<le> r" and "r \<le> k"
proof -
  from assms(1,2) have "-1 \<le> fst (io w fd buf k) \<and> fst (io w fd buf k) \<le> k"
    unfolding posix_io_def by blast
  with assms(3) show "-1 \<le> r" and "r \<le> k" by simp_all
qed

text \<open>
  Any two functions that satisfy the equation of the loop, one over the system call and one
  over the logged system call, return, and return the same value; the calls in the log
  are those of \<open>io_run\<close>. The recursion ends because each call that does not end the
  loop moves at least one byte and at most what was asked for.
\<close>

lemma full_io_loop:
  fixes f :: "int \<Rightarrow> int \<Rightarrow> 'w \<times> io_event list \<Rightarrow> (int \<times> 'w \<times> io_event list) option"
    and g :: "int \<Rightarrow> int \<Rightarrow> 'w \<Rightarrow> (int \<times> 'w) option"
  assumes unfold_f: "\<And>b t s. f b t s =
     (if t \<noteq> n then
        (case traced io s fd b (n - t) of
           (r, s') \<Rightarrow>
             if r = 0 then Some (t, s')
             else if r = -1 then Some (-1, s')
             else f (b + r) (t + r) s')
      else Some (t, s))"
    and unfold_g: "\<And>b t s. g b t s =
     (if t \<noteq> n then
        (case io s fd b (n - t) of
           (r, s') \<Rightarrow>
             if r = 0 then Some (t, s')
             else if r = -1 then Some (-1, s')
             else g (b + r) (t + r) s')
      else Some (t, s))"
    and io: "posix_io io"
    and t: "t \<le> n"
  shows "\<exists>res w' tr. g b t w = Some (res, w') \<and> f b t (w, log) = Some (res, w', log @ tr) \<and>
           io_run n b t tr res"
  using t
proof (induction "nat (n - t)" arbitrary: t b w log rule: less_induct)
  case less
  show ?case
  proof (cases "t = n")
    case True
    have "f b t (w, log) = Some (n, w, log @ [])"
      using True by (subst unfold_f) simp
    moreover have "g b t w = Some (n, w)"
      using True by (subst unfold_g) simp
    moreover have "io_run n b t [] n" using True by simp
    ultimately show ?thesis by blast
  next
    case False
    with less.prems have lt: "t < n" by simp
    obtain r w' where r: "io w fd b (n - t) = (r, w')" by (cases "io w fd b (n - t)")
    from lt have "0 < n - t" by simp
    from posix_ioD[OF io this r] have bounds: "-1 \<le> r" "r \<le> n - t" .
    let ?e = "\<lparr>ev_buf = b, ev_req = n - t, ev_ret = r\<rparr>"
    have step: "traced io (w, log) fd b (n - t) = (r, (w', log @ [?e]))"
      by (simp add: traced_def r)
    show ?thesis
    proof (cases "r = 0 \<or> r = -1")
      case True
      then have "f b t (w, log) = Some (if r = 0 then t else -1, w', log @ [?e])"
        using False by (subst unfold_f) (auto simp: step)
      moreover have "g b t w = Some (if r = 0 then t else -1, w')"
        using False True by (subst unfold_g) (auto simp: r)
      moreover have "io_run n b t [?e] (if r = 0 then t else -1)"
        using True lt by auto
      ultimately show ?thesis by blast
    next
      case False
      with bounds have pos: "0 < r" by simp
      have "nat (n - (t + r)) < nat (n - t)" using pos lt by simp
      moreover have "t + r \<le> n" using bounds by simp
      ultimately obtain res w'' tr where
        rec_g: "g (b + r) (t + r) w' = Some (res, w'')"
        and rec_f: "f (b + r) (t + r) (w', log @ [?e]) = Some (res, w'', (log @ [?e]) @ tr)"
        and run: "io_run n (b + r) (t + r) tr res"
        using less.hyps[of "t + r" "b + r" w' "log @ [?e]"] by blast
      have "f b t (w, log) = Some (res, w'', log @ (?e # tr))"
        using \<open>t \<noteq> n\<close> False rec_f by (subst unfold_f) (simp add: step)
      moreover have "g b t w = Some (res, w'')"
        using \<open>t \<noteq> n\<close> False rec_g by (subst unfold_g) (simp add: r)
      moreover have "io_run n b t (?e # tr) res"
        using lt pos bounds run by simp
      ultimately show ?thesis by blast
    qed
  qed
qed

lemma io_run_calls:
  "io_run n b t tr res \<Longrightarrow> i < length tr \<Longrightarrow>
     ev_req (tr ! i) = n - (t + moved (take i tr)) \<and>
     ev_buf (tr ! i) = b + moved (take i tr) \<and>
     t + moved (take i tr) < n \<and>
     (Suc i < length tr \<longrightarrow> 0 < ev_ret (tr ! i))"
proof (induction tr arbitrary: b t i)
  case Nil
  then show ?case by simp
next
  case (Cons e es)
  show ?case
  proof (cases i)
    case 0
    with Cons.prems show ?thesis by (auto simp: moved_def split: if_splits)
  next
    case (Suc j)
    with Cons.prems have j: "j < length es" and ne: "es \<noteq> []" by auto
    with Cons.prems have run: "io_run n (b + ev_ret e) (t + ev_ret e) es res"
      by (auto split: if_splits)
    from Cons.IH[OF run j] Suc show ?thesis by (simp add: moved_def add.assoc)
  qed
qed

lemma io_run_result:
  "io_run n b t tr res \<Longrightarrow>
     (if tr \<noteq> [] \<and> ev_ret (last tr) = 0 then res = t + moved tr \<and> res < n
      else if tr \<noteq> [] \<and> ev_ret (last tr) = -1 then res = -1
      else res = n \<and> t + moved tr = n)"
proof (induction tr arbitrary: b t)
  case Nil
  then show ?case by (simp add: moved_def)
next
  case (Cons e es)
  show ?case
  proof (cases "ev_ret e = 0 \<or> ev_ret e = -1")
    case True
    with Cons.prems show ?thesis by (auto simp: moved_def)
  next
    case False
    with Cons.prems have run: "io_run n (b + ev_ret e) (t + ev_ret e) es res" and "0 < ev_ret e"
      and "t + ev_ret e \<le> n"
      by auto
    from Cons.IH[OF run] False \<open>0 < ev_ret e\<close> \<open>t + ev_ret e \<le> n\<close> show ?thesis
      by (cases "es = []") (auto simp: moved_def split: if_splits)
  qed
qed

lemma io_run_range: "io_run n b t tr res \<Longrightarrow> res = -1 \<or> (t \<le> res \<and> res \<le> n)"
proof (induction tr arbitrary: b t)
  case Nil
  then show ?case by simp
next
  case (Cons e es)
  show ?case
  proof (cases "ev_ret e = 0 \<or> ev_ret e = -1")
    case True
    with Cons.prems show ?thesis by auto
  next
    case False
    with Cons.prems have run: "io_run n (b + ev_ret e) (t + ev_ret e) es res" and "0 < ev_ret e"
      by auto
    from Cons.IH[OF run] \<open>0 < ev_ret e\<close> show ?thesis by auto
  qed
qed

lemma io_run_full:
  assumes "io_run n buf 0 tr res"
  shows "(\<forall>i < length tr.
            ev_req (tr ! i) = n - moved (take i tr) \<and>
            ev_buf (tr ! i) = buf + moved (take i tr) \<and>
            moved (take i tr) < n \<and>
            (Suc i < length tr \<longrightarrow> 0 < ev_ret (tr ! i))) \<and>
         (if tr \<noteq> [] \<and> ev_ret (last tr) = 0 then res = moved tr \<and> res < n
          else if tr \<noteq> [] \<and> ev_ret (last tr) = -1 then res = -1
          else res = n \<and> moved tr = n)"
proof (rule conjI)
  show "\<forall>i < length tr.
            ev_req (tr ! i) = n - moved (take i tr) \<and>
            ev_buf (tr ! i) = buf + moved (take i tr) \<and>
            moved (take i tr) < n \<and>
            (Suc i < length tr \<longrightarrow> 0 < ev_ret (tr ! i))"
    using io_run_calls[OF assms] by simp
  show "if tr \<noteq> [] \<and> ev_ret (last tr) = 0 then res = moved tr \<and> res < n
          else if tr \<noteq> [] \<and> ev_ret (last tr) = -1 then res = -1
          else res = n \<and> moved tr = n"
    using io_run_result[OF assms] by (auto split: if_splits)
qed

lemma anetRead_run:
  assumes "posix_io rd" and "0 \<le> n"
  shows "\<exists>res w' tr. anetRead rd fd buf n w = Some (res, w') \<and>
           anetRead (traced rd) fd buf n (w, []) = Some (res, w', tr) \<and> io_run n buf 0 tr res"
proof -
  have "\<exists>res w' tr. anetRead_loop rd fd buf n 0 w = Some (res, w') \<and>
          anetRead_loop (traced rd) fd buf n 0 (w, []) = Some (res, w', [] @ tr) \<and>
          io_run n buf 0 tr res"
  proof (rule full_io_loop[where f = "\<lambda>b t s. anetRead_loop (traced rd) fd b n t s"
        and g = "\<lambda>b t s. anetRead_loop rd fd b n t s" and io = rd])
    show "anetRead_loop (traced rd) fd b n t s =
       (if t \<noteq> n then
          (case traced rd s fd b (n - t) of
             (r, s') \<Rightarrow>
               if r = 0 then Some (t, s')
               else if r = -1 then Some (-1, s')
               else anetRead_loop (traced rd) fd (b + r) n (t + r) s')
        else Some (t, s))" for b t s
      by (subst anetRead_loop.simps) (rule refl)
    show "anetRead_loop rd fd b n t s =
       (if t \<noteq> n then
          (case rd s fd b (n - t) of
             (r, s') \<Rightarrow>
               if r = 0 then Some (t, s')
               else if r = -1 then Some (-1, s')
               else anetRead_loop rd fd (b + r) n (t + r) s')
        else Some (t, s))" for b t s
      by (subst anetRead_loop.simps) (rule refl)
  qed (use assms in auto)
  then show ?thesis by (simp add: anetRead_def)
qed

lemma anetWrite_run:
  assumes "posix_io wr" and "0 \<le> n"
  shows "\<exists>res w' tr. anetWrite wr fd buf n w = Some (res, w') \<and>
           anetWrite (traced wr) fd buf n (w, []) = Some (res, w', tr) \<and> io_run n buf 0 tr res"
proof -
  have "\<exists>res w' tr. anetWrite_loop wr fd buf n 0 w = Some (res, w') \<and>
          anetWrite_loop (traced wr) fd buf n 0 (w, []) = Some (res, w', [] @ tr) \<and>
          io_run n buf 0 tr res"
  proof (rule full_io_loop[where f = "\<lambda>b t s. anetWrite_loop (traced wr) fd b n t s"
        and g = "\<lambda>b t s. anetWrite_loop wr fd b n t s" and io = wr])
    show "anetWrite_loop (traced wr) fd b n t s =
       (if t \<noteq> n then
          (case traced wr s fd b (n - t) of
             (r, s') \<Rightarrow>
               if r = 0 then Some (t, s')
               else if r = -1 then Some (-1, s')
               else anetWrite_loop (traced wr) fd (b + r) n (t + r) s')
        else Some (t, s))" for b t s
      by (subst anetWrite_loop.simps) (rule refl)
    show "anetWrite_loop wr fd b n t s =
       (if t \<noteq> n then
          (case wr s fd b (n - t) of
             (r, s') \<Rightarrow>
               if r = 0 then Some (t, s')
               else if r = -1 then Some (-1, s')
               else anetWrite_loop wr fd (b + r) n (t + r) s')
        else Some (t, s))" for b t s
      by (subst anetWrite_loop.simps) (rule refl)
  qed (use assms in auto)
  then show ?thesis by (simp add: anetWrite_def)
qed

lemma pipe_io_posix: "posix_io pipe_io"
  unfolding posix_io_def
proof (intro allI impI)
  fix w :: "chunk list" and fd buf k :: int
  assume "0 < k"
  then show "- 1 \<le> fst (pipe_io w fd buf k) \<and> fst (pipe_io w fd buf k) \<le> k"
    by (cases "(w, fd, buf, k)" rule: pipe_io.cases) auto
qed

text \<open>
  C3. For every count \<open>n \<ge> 0\<close> and every \<^verbatim>\<open>read\<close> that keeps its contract, \<open>anetRead\<close>
  returns. Each read it issues asks for the \<open>n\<close> bytes less those accumulated, at the
  address after them, and is issued only while fewer than \<open>n\<close> bytes have accumulated;
  every read but the last returns a positive count. If the last read returned 0 the
  result is the total read so far, which is less than \<open>n\<close>; if it returned \<open>-1\<close> the
  result is \<open>-1\<close>; otherwise exactly \<open>n\<close> bytes were read and the result is \<open>n\<close>.
\<close>

theorem anetRead_full:
  assumes "posix_io rd" and "0 \<le> n"
  shows "\<exists>res w' log.
           anetRead rd fd buf n w = Some (res, w') \<and>
           anetRead (traced rd) fd buf n (w, []) = Some (res, w', log) \<and>
           (\<forall>i < length log.
              ev_req (log ! i) = n - moved (take i log) \<and>
              ev_buf (log ! i) = buf + moved (take i log) \<and>
              moved (take i log) < n \<and>
              (Suc i < length log \<longrightarrow> 0 < ev_ret (log ! i))) \<and>
           (if log \<noteq> [] \<and> ev_ret (last log) = 0 then res = moved log \<and> res < n
            else if log \<noteq> [] \<and> ev_ret (last log) = -1 then res = -1
            else res = n \<and> moved log = n)"
proof -
  from anetRead_run[OF assms] obtain res w' tr where
    "anetRead rd fd buf n w = Some (res, w')"
    "anetRead (traced rd) fd buf n (w, []) = Some (res, w', tr)" and "io_run n buf 0 tr res"
    by blast
  with io_run_full[of n buf tr res] show ?thesis by blast
qed

theorem anetRead_full_witness:
  "\<exists>res w' log.
     anetRead pipe_io 3 0 16 [Ready 10, Eof] = Some (res, w') \<and>
     anetRead (traced pipe_io) 3 0 16 ([Ready 10, Eof], []) = Some (res, w', log) \<and>
     (\<forall>i < length log.
        ev_req (log ! i) = 16 - moved (take i log) \<and>
        ev_buf (log ! i) = 0 + moved (take i log) \<and>
        moved (take i log) < 16 \<and>
        (Suc i < length log \<longrightarrow> 0 < ev_ret (log ! i))) \<and>
     (if log \<noteq> [] \<and> ev_ret (last log) = 0 then res = moved log \<and> res < 16
      else if log \<noteq> [] \<and> ev_ret (last log) = -1 then res = -1
      else res = 16 \<and> moved log = 16)"
  by (rule anetRead_full[OF pipe_io_posix]) simp

text \<open>
  C4. For every count \<open>n \<ge> 0\<close> and every \<^verbatim>\<open>write\<close> that keeps its contract, \<open>anetWrite\<close>
  returns. Each write it issues offers the \<open>n\<close> bytes less those written, from the address
  after them, and is issued only while fewer than \<open>n\<close> bytes have been written; every
  write but the last returns a positive count. If the last write returned 0 the result is
  the total written so far; if it returned \<open>-1\<close> the result is \<open>-1\<close>; otherwise exactly
  \<open>n\<close> bytes were written and the result is \<open>n\<close>.
\<close>

theorem anetWrite_full:
  assumes "posix_io wr" and "0 \<le> n"
  shows "\<exists>res w' log.
           anetWrite wr fd buf n w = Some (res, w') \<and>
           anetWrite (traced wr) fd buf n (w, []) = Some (res, w', log) \<and>
           (\<forall>i < length log.
              ev_req (log ! i) = n - moved (take i log) \<and>
              ev_buf (log ! i) = buf + moved (take i log) \<and>
              moved (take i log) < n \<and>
              (Suc i < length log \<longrightarrow> 0 < ev_ret (log ! i))) \<and>
           (if log \<noteq> [] \<and> ev_ret (last log) = 0 then res = moved log \<and> res < n
            else if log \<noteq> [] \<and> ev_ret (last log) = -1 then res = -1
            else res = n \<and> moved log = n)"
proof -
  from anetWrite_run[OF assms] obtain res w' tr where
    "anetWrite wr fd buf n w = Some (res, w')"
    "anetWrite (traced wr) fd buf n (w, []) = Some (res, w', tr)" and "io_run n buf 0 tr res"
    by blast
  with io_run_full[of n buf tr res] show ?thesis by blast
qed

theorem anetWrite_full_witness:
  "\<exists>res w' log.
     anetWrite pipe_io 4 0 12 [Ready 5, Ready 4, Broken] = Some (res, w') \<and>
     anetWrite (traced pipe_io) 4 0 12 ([Ready 5, Ready 4, Broken], []) = Some (res, w', log) \<and>
     (\<forall>i < length log.
        ev_req (log ! i) = 12 - moved (take i log) \<and>
        ev_buf (log ! i) = 0 + moved (take i log) \<and>
        moved (take i log) < 12 \<and>
        (Suc i < length log \<longrightarrow> 0 < ev_ret (log ! i))) \<and>
     (if log \<noteq> [] \<and> ev_ret (last log) = 0 then res = moved log \<and> res < 12
      else if log \<noteq> [] \<and> ev_ret (last log) = -1 then res = -1
      else res = 12 \<and> moved log = 12)"
  by (rule anetWrite_full[OF pipe_io_posix]) simp

text \<open>
  C10. For every count \<open>n \<ge> 0\<close>, with system calls that keep their contract, \<open>anetRead\<close>
  and \<open>anetWrite\<close> return \<open>-1\<close> or a total from \<open>0\<close> to \<open>n\<close>; with \<open>n = 0\<close> both return
  \<open>0\<close>, issue no call and leave the world as it was.
\<close>

theorem full_io_range:
  assumes "posix_io rd" and "posix_io wr" and "0 \<le> n"
  shows "(\<exists>res w' log.
            anetRead rd fd buf n w = Some (res, w') \<and>
            anetRead (traced rd) fd buf n (w, []) = Some (res, w', log) \<and>
            (res = -1 \<or> (0 \<le> res \<and> res \<le> n)) \<and>
            (n = 0 \<longrightarrow> res = 0 \<and> log = [] \<and> w' = w)) \<and>
         (\<exists>res v' log.
            anetWrite wr fd buf n v = Some (res, v') \<and>
            anetWrite (traced wr) fd buf n (v, []) = Some (res, v', log) \<and>
            (res = -1 \<or> (0 \<le> res \<and> res \<le> n)) \<and>
            (n = 0 \<longrightarrow> res = 0 \<and> log = [] \<and> v' = v))"
proof (rule conjI)
  from anetRead_run[OF assms(1,3)] obtain res w' tr where
    run: "anetRead rd fd buf n w = Some (res, w')"
      "anetRead (traced rd) fd buf n (w, []) = Some (res, w', tr)" "io_run n buf 0 tr res"
    by blast
  have zero: "n = 0 \<longrightarrow> res = 0 \<and> tr = [] \<and> w' = w"
  proof
    assume "n = 0"
    then have "anetRead (traced rd) fd buf n (w, []) = Some (0, w, [])"
      unfolding anetRead_def by (subst anetRead_loop.simps) simp
    with run(2) show "res = 0 \<and> tr = [] \<and> w' = w" by simp
  qed
  from io_run_range[OF run(3)] have "res = -1 \<or> (0 \<le> res \<and> res \<le> n)" .
  with run zero show "\<exists>res w' log.
            anetRead rd fd buf n w = Some (res, w') \<and>
            anetRead (traced rd) fd buf n (w, []) = Some (res, w', log) \<and>
            (res = -1 \<or> (0 \<le> res \<and> res \<le> n)) \<and>
            (n = 0 \<longrightarrow> res = 0 \<and> log = [] \<and> w' = w)"
    by blast
next
  from anetWrite_run[OF assms(2,3)] obtain res v' tr where
    run: "anetWrite wr fd buf n v = Some (res, v')"
      "anetWrite (traced wr) fd buf n (v, []) = Some (res, v', tr)" "io_run n buf 0 tr res"
    by blast
  have zero: "n = 0 \<longrightarrow> res = 0 \<and> tr = [] \<and> v' = v"
  proof
    assume "n = 0"
    then have "anetWrite (traced wr) fd buf n (v, []) = Some (0, v, [])"
      unfolding anetWrite_def by (subst anetWrite_loop.simps) simp
    with run(2) show "res = 0 \<and> tr = [] \<and> v' = v" by simp
  qed
  from io_run_range[OF run(3)] have "res = -1 \<or> (0 \<le> res \<and> res \<le> n)" .
  with run zero show "\<exists>res v' log.
            anetWrite wr fd buf n v = Some (res, v') \<and>
            anetWrite (traced wr) fd buf n (v, []) = Some (res, v', log) \<and>
            (res = -1 \<or> (0 \<le> res \<and> res \<le> n)) \<and>
            (n = 0 \<longrightarrow> res = 0 \<and> log = [] \<and> v' = v)"
    by blast
qed

theorem full_io_range_witness:
  "(\<exists>res w' log.
      anetRead pipe_io 3 0 0 [Ready 10, Eof] = Some (res, w') \<and>
      anetRead (traced pipe_io) 3 0 0 ([Ready 10, Eof], []) = Some (res, w', log) \<and>
      (res = -1 \<or> (0 \<le> res \<and> res \<le> 0)) \<and>
      ((0::int) = 0 \<longrightarrow> res = 0 \<and> log = [] \<and> w' = [Ready 10, Eof])) \<and>
   (\<exists>res v' log.
      anetWrite pipe_io 3 0 0 [Ready 7] = Some (res, v') \<and>
      anetWrite (traced pipe_io) 3 0 0 ([Ready 7], []) = Some (res, v', log) \<and>
      (res = -1 \<or> (0 \<le> res \<and> res \<le> 0)) \<and>
      ((0::int) = 0 \<longrightarrow> res = 0 \<and> log = [] \<and> v' = [Ready 7]))"
  by (rule full_io_range[OF pipe_io_posix pipe_io_posix]) simp


section \<open>Proofs: address stringification\<close>

subsection \<open>The texts fit their buffers\<close>

lemma length_dec: "n < 10 ^ k \<Longrightarrow> 0 < k \<Longrightarrow> length (dec n) \<le> k"
proof (induction k arbitrary: n)
  case 0
  then show ?case by simp
next
  case (Suc k)
  show ?case
  proof (cases "n < 10")
    case True
    then show ?thesis by (subst dec.simps) simp
  next
    case False
    with Suc.prems have k: "0 < k" by (cases k) auto
    from Suc.prems have "n div 10 < 10 ^ k" by (simp add: less_mult_imp_div_less mult.commute)
    from Suc.IH[OF this k] False show ?thesis by (subst dec.simps) simp
  qed
qed

lemma length_hex: "n < 16 ^ k \<Longrightarrow> 0 < k \<Longrightarrow> length (hex n) \<le> k"
proof (induction k arbitrary: n)
  case 0
  then show ?case by simp
next
  case (Suc k)
  show ?case
  proof (cases "n < 16")
    case True
    then show ?thesis by (subst hex.simps) simp
  next
    case False
    with Suc.prems have k: "0 < k" by (cases k) auto
    from Suc.prems have "n div 16 < 16 ^ k" by (simp add: less_mult_imp_div_less mult.commute)
    from Suc.IH[OF this k] False show ?thesis by (subst hex.simps) simp
  qed
qed

lemma length_dec_byte: "length (dec (unat (b :: byte))) \<le> 3"
proof -
  have "unat b < 2 ^ 8" using unsigned_less[of b, where ?'a = nat] by simp
  then have "unat b < 10 ^ 3" by simp
  then show ?thesis by (rule length_dec) simp
qed

lemma length_dotted: "length (dotted bs) + 1 \<le> 4 * length bs + (if bs = [] then 1 else 0)"
proof (induction bs rule: dotted.induct)
  case 1
  then show ?case by simp
next
  case (2 b)
  then show ?case using length_dec_byte[of b] by simp
next
  case (3 b v va)
  then show ?case using length_dec_byte[of b] by simp
qed

lemma length_inet_ntop4: "length (inet_ntop4 src) \<le> 15"
proof -
  have "length (dotted (take 4 src)) + 1 \<le> 4 * length (take 4 src) + (if take 4 src = [] then 1 else 0)"
    by (rule length_dotted)
  then show ?thesis by (auto simp: inet_ntop4_def split: if_splits)
qed

lemma words16_props:
  "length (words16 bs) = length bs div 2" "\<forall>w \<in> set (words16 bs). w < 65536"
proof (induction bs rule: words16.induct)
  case (1 hi lo bs)
  have "unat hi < 2 ^ 8" "unat lo < 2 ^ 8"
    using unsigned_less[of hi, where ?'a = nat] unsigned_less[of lo, where ?'a = nat] by simp_all
  then have "unat hi * 256 + unat lo < 65536" by simp
  with 1 show "length (words16 (hi # lo # bs)) = length (hi # lo # bs) div 2"
    and "\<forall>w \<in> set (words16 (hi # lo # bs)). w < 65536" by simp_all
qed simp_all

lemma length_print_words:
  assumes "\<forall>w \<in> set ws. w < 65536" and "length v4 \<le> 15" and "i + length ws = 8"
  shows "length (print_words run enc v4 ws i) \<le> 5 * length ws + (if enc \<and> i \<le> 6 then 6 else 0)"
  using assms
proof (induction ws arbitrary: i)
  case Nil
  then show ?case by simp
next
  case (Cons w ws)
  have hw: "length (hex w) \<le> 4"
    using Cons.prems(1) length_hex[of w 4] by simp
  have ih: "length (print_words run enc v4 ws (Suc i)) \<le> 5 * length ws + (if enc \<and> Suc i \<le> 6 then 6 else 0)"
    using Cons.IH[of "Suc i"] Cons.prems by simp
  show ?case
  proof (cases "i = 6 \<and> enc \<and> \<not> in_run run i")
    case True
    with Cons.prems(3) have "length ws = 1" by simp
    with True Cons.prems(2) show ?thesis by auto
  next
    case False
    with ih hw show ?thesis by (auto split: if_splits)
  qed
qed

lemma length_inet_ntop6:
  assumes "length src = 16"
  shows "length (inet_ntop6 src) \<le> 45"
proof -
  define ws where "ws = words16 (take 16 src)"
  define run where "run = best_run ws"
  define enc where "enc = encapsulated run ws"
  define v4 where "v4 = inet_ntop4 (drop 12 src)"
  have len: "length ws = 8" and small: "\<forall>w \<in> set ws. w < 65536"
    using words16_props[of "take 16 src"] assms by (simp_all add: ws_def)
  then obtain w0 ws' where ws: "ws = w0 # ws'" and len': "length ws' = 7" by (cases ws) auto
  have v4: "length v4 \<le> 15" unfolding v4_def by (rule length_inet_ntop4)
  have tail: "length (print_words run enc v4 ws' 1) \<le> 35 + (if enc then 6 else 0)"
    using length_print_words[of ws' v4 1 run enc] small v4 len' ws by simp
  have hw: "length (hex w0) \<le> 4" using small ws length_hex[of w0 4] by simp
  have body: "length (print_words run enc v4 ws 0) \<le> 39 + (if enc then 6 else 0)"
    using tail hw by (cases enc) (auto simp: ws)
  have colon: "enc \<Longrightarrow> (case run of None \<Rightarrow> [] | Some (b, l) \<Rightarrow> if b + l = 8 then '':'' else []) = []"
    by (auto simp: enc_def encapsulated_def split: option.splits)
  have "length (case run of None \<Rightarrow> [] | Some (b, l) \<Rightarrow> if b + l = 8 then '':'' else []) \<le> 1"
    by (auto split: option.splits)
  with body colon have "length (print_words run enc v4 ws 0 @
      (case run of None \<Rightarrow> [] | Some (b, l) \<Rightarrow> if b + l = 8 then '':'' else [])) \<le> 45"
    by (cases enc) auto
  then show ?thesis by (simp add: inet_ntop6_def Let_def ws_def run_def enc_def v4_def)
qed

subsection \<open>Digits and numbers\<close>

lemma digit_value_digit_char: "d < 16 \<Longrightarrow> digit_value (digit_char d) = Some d"
proof -
  have all: "\<forall>d \<in> set [0..<16]. digit_value (digit_char d) = Some d" by code_simp
  assume "d < 16"
  then have "d \<in> set [0..<16]" by simp
  with all show ?thesis by blast
qed

lemma of_char_digit_char:
  "d < 16 \<Longrightarrow> (of_char (digit_char d) :: nat) = (if d < 10 then 48 + d else 87 + d)"
  by (simp add: digit_char_def)

lemma digit_char_plain: "d < 16 \<Longrightarrow> digit_char d \<noteq> CHR '':'' \<and> digit_char d \<noteq> CHR ''.''"
proof (intro conjI notI)
  assume d: "d < 16"
  { assume "digit_char d = CHR '':''"
    then have "(of_char (digit_char d) :: nat) = of_char CHR '':''" by simp
    with d show False by (simp add: of_char_digit_char split: if_splits) }
  { assume "digit_char d = CHR ''.''"
    then have "(of_char (digit_char d) :: nat) = of_char CHR ''.''" by simp
    with d show False by (simp add: of_char_digit_char split: if_splits) }
qed

lemma digit_char_zero: "d < 10 \<Longrightarrow> digit_char d = CHR ''0'' \<Longrightarrow> d = 0"
proof -
  assume d: "d < 10" and z: "digit_char d = CHR ''0''"
  from d have "d < 16" by simp
  then have "(of_char (digit_char d) :: nat) = 48 + d" using d by (simp add: of_char_digit_char)
  moreover from z have "(of_char (digit_char d) :: nat) = 48" by simp
  ultimately show ?thesis by simp
qed

lemma hex_digits:
  "hex n \<noteq> []"
  "\<forall>c \<in> set (hex n). \<exists>d < 16. c = digit_char d"
  "foldl (\<lambda>a c. a * 16 + the (digit_value c)) 0 (hex n) = n"
proof (induction n rule: hex.induct)
  case (1 n)
  { case 1 show ?case by (subst hex.simps) simp }
  { case 2
    show ?case
    proof (cases "n < 16")
      case True
      then show ?thesis by (subst hex.simps) auto
    next
      case False
      have "n mod 16 < 16" by simp
      then have "\<exists>d<16. digit_char (n mod 16) = digit_char d" by blast
      with False "1.IH"(2) show ?thesis by (subst hex.simps) auto
    qed }
  { case 3
    show ?case
    proof (cases "n < 16")
      case True
      then show ?thesis by (subst hex.simps) (simp add: digit_value_digit_char)
    next
      case False
      have "n mod 16 < 16" by simp
      with False "1.IH"(3) show ?thesis
        by (subst hex.simps) (simp add: digit_value_digit_char)
    qed }
qed

lemma dec_digits:
  "dec n \<noteq> []"
  "\<forall>c \<in> set (dec n). \<exists>d < 10. c = digit_char d"
  "foldl (\<lambda>a c. a * 10 + the (digit_value c)) 0 (dec n) = n"
  "hd (dec n) = CHR ''0'' \<longrightarrow> n = 0"
proof (induction n rule: dec.induct)
  case (1 n)
  { case 1 show ?case by (subst dec.simps) simp }
  { case 2
    show ?case
    proof (cases "n < 10")
      case True
      then show ?thesis by (subst dec.simps) auto
    next
      case False
      have "n mod 10 < 10" by simp
      then have "\<exists>d<10. digit_char (n mod 10) = digit_char d" by blast
      with False "1.IH"(2) show ?thesis by (subst dec.simps) auto
    qed }
  { case 3
    show ?case
    proof (cases "n < 10")
      case True
      then show ?thesis by (subst dec.simps) (simp add: digit_value_digit_char)
    next
      case False
      have "n mod 10 < 10" by simp
      then have "n mod 10 < 16" by simp
      with False "1.IH"(3) show ?thesis
        by (subst dec.simps) (simp add: digit_value_digit_char)
    qed }
  { case 4
    show ?case
    proof (cases "n < 10")
      case True
      then show ?thesis by (subst dec.simps) (auto dest: digit_char_zero)
    next
      case False
      then have "n div 10 \<noteq> 0" by simp
      with False "1.IH"(1,4) show ?thesis by (subst dec.simps) simp
    qed }
qed

lemma numeral_value_hex: "numeral_value 16 (hex n) = Some n"
proof -
  have "case digit_value c of None \<Rightarrow> False | Some d \<Rightarrow> d < 16" if "c \<in> set (hex n)" for c
  proof -
    from that hex_digits(2)[of n] obtain d where "d < 16" "c = digit_char d" by blast
    then show ?thesis by (simp add: digit_value_digit_char)
  qed
  then have "list_all (\<lambda>c. case digit_value c of None \<Rightarrow> False | Some d \<Rightarrow> d < 16) (hex n)"
    unfolding list_all_iff by blast
  with hex_digits(1,3)[of n] show ?thesis unfolding numeral_value_def by simp
qed

lemma numeral_value_dec: "numeral_value 10 (dec n) = Some n"
proof -
  have "case digit_value c of None \<Rightarrow> False | Some d \<Rightarrow> d < 10" if "c \<in> set (dec n)" for c
  proof -
    from that dec_digits(2)[of n] obtain d where "d < 10" "c = digit_char d" by blast
    then show ?thesis by (simp add: digit_value_digit_char)
  qed
  then have "list_all (\<lambda>c. case digit_value c of None \<Rightarrow> False | Some d \<Rightarrow> d < 10) (dec n)"
    unfolding list_all_iff by blast
  with dec_digits(1,3)[of n] show ?thesis unfolding numeral_value_def by simp
qed

lemma hex_plain: "CHR '':'' \<notin> set (hex n)" "CHR ''.'' \<notin> set (hex n)"
  using hex_digits(2)[of n] digit_char_plain by metis+

lemma dec_plain: "CHR '':'' \<notin> set (dec n)" "CHR ''.'' \<notin> set (dec n)"
proof -
  have "\<exists>d < 16. c = digit_char d" if "c \<in> set (dec n)" for c
  proof -
    from that dec_digits(2)[of n] obtain d where "d < 10" "c = digit_char d" by blast
    then have "d < 16 \<and> c = digit_char d" by simp
    then show ?thesis by blast
  qed
  then show "CHR '':'' \<notin> set (dec n)" "CHR ''.'' \<notin> set (dec n)"
    using digit_char_plain by metis+
qed


subsection \<open>Fields and groups\<close>

lemma fields_plain: "c \<notin> set f \<Longrightarrow> fields c f = [f]"
  by (induction f) auto

lemma fields_append: "c \<notin> set f \<Longrightarrow> fields c (f @ c # r) = f # fields c r"
  by (induction f) auto

lemma dec_octet_dec: "dec_octet (dec (unat (b :: byte))) = Some b"
proof -
  have "unat b < 2 ^ 8" using unsigned_less[of b, where ?'a = nat] by simp
  then have small: "unat b \<le> 255" by simp
  have zero: "hd (dec (unat b)) = CHR ''0'' \<longrightarrow> dec (unat b) = ''0''"
  proof
    assume "hd (dec (unat b)) = CHR ''0''"
    with dec_digits(4)[of "unat b"] have "unat b = 0" by simp
    moreover have "dec 0 = ''0''" by code_simp
    ultimately show "dec (unat b) = ''0''" by simp
  qed
  from small zero show ?thesis by (simp add: dec_octet_def numeral_value_dec)
qed

lemma hex_group_hex: "w < 65536 \<Longrightarrow> hex_group (hex w) = Some (bytes_of w)"
  using length_hex[of w 4] by (simp add: hex_group_def numeral_value_hex bytes_of_def)

lemma hex_group_dotted: "CHR ''.'' \<in> set s \<Longrightarrow> hex_group s = None"
proof -
  assume "CHR ''.'' \<in> set s"
  moreover have "digit_value CHR ''.'' = None" by code_simp
  ultimately have "\<not> list_all (\<lambda>c. case digit_value c of None \<Rightarrow> False | Some d \<Rightarrow> d < 16) s"
    unfolding list_all_iff by (intro notI) (drule bspec, assumption, simp)
  then show ?thesis by (simp add: hex_group_def numeral_value_def)
qed

lemma dotted_quad_value_dotted:
  "dotted_quad_value (dotted [a, b, c, d]) = Some [a, b, c, d]"
  by (simp add: dotted_quad_value_def fields_append fields_plain dec_plain dec_octet_dec)

lemma dotted_plain: "CHR '':'' \<notin> set (dotted bs)"
  by (induction bs rule: dotted.induct) (simp_all add: dec_plain)

lemma dotted_has_dot: "CHR ''.'' \<in> set (dotted [a, b, c, d])"
  by simp

lemma dotted_not_empty: "bs \<noteq> [] \<Longrightarrow> dotted bs \<noteq> []"
  by (induction bs rule: dotted.induct) (simp_all add: dec_digits(1))

subsection \<open>Texts of groups\<close>

lemma colons_Cons: "colons (g # gs) = g @ colon_each gs"
  by (induction gs arbitrary: g) (simp_all add: colon_each_def)

lemma colon_each_Cons: "colon_each (g # gs) = CHR '':'' # g @ colon_each gs"
  by (simp add: colon_each_def)

lemma colon_each_Nil: "colon_each [] = []"
  by (simp add: colon_each_def)

lemma colon_each_colons: "colon_each (g # gs) = CHR '':'' # colons (g # gs)"
  by (simp add: colons_Cons colon_each_Cons)

lemma fields_colons:
  "gs \<noteq> [] \<Longrightarrow> \<forall>g \<in> set gs. CHR '':'' \<notin> set g \<Longrightarrow> fields CHR '':'' (colons gs) = gs"
proof (induction gs rule: colons.induct)
  case 1
  then show ?case by simp
next
  case (2 g)
  then show ?case by (simp add: fields_plain)
next
  case (3 g v va)
  then show ?case by (simp add: fields_append)
qed

lemma colons_not_empty: "gs \<noteq> [] \<Longrightarrow> \<forall>g \<in> set gs. g \<noteq> [] \<Longrightarrow> colons gs \<noteq> []"
  by (cases gs) (simp_all add: colons_Cons)

lemma part_value_colons:
  assumes "\<forall>g \<in> set gs. g \<noteq> [] \<and> CHR '':'' \<notin> set g"
  shows "part_value v4 (colons gs) = groups_value v4 gs"
proof (cases "gs = []")
  case True
  then show ?thesis by (simp add: part_value_def)
next
  case False
  with assms have "colons gs \<noteq> []" by (simp add: colons_not_empty)
  moreover from False assms have "fields CHR '':'' (colons gs) = gs" by (simp add: fields_colons)
  ultimately show ?thesis by (simp add: part_value_def)
qed

lemma cut_gap_plain:
  "CHR '':'' \<notin> set f \<Longrightarrow> cut_gap (f @ r) = map_option (\<lambda>(l, r'). (f @ l, r')) (cut_gap r)"
proof (induction f)
  case Nil
  show ?case by (simp add: option.map_ident split_def)
next
  case (Cons a f)
  show ?case
  proof (cases "f @ r")
    case Nil
    then show ?thesis by simp
  next
    case (Cons b xs)
    from Cons.prems have a: "a \<noteq> CHR '':''" by auto
    from Cons.prems Cons.IH have ih: "cut_gap (f @ r) = map_option (\<lambda>(l, r'). (f @ l, r')) (cut_gap r)"
      by simp
    have "cut_gap ((a # f) @ r) = map_option (\<lambda>(l, r). (a # l, r)) (cut_gap (f @ r))"
      using a Cons by simp
    also have "\<dots> = map_option (\<lambda>(l, r'). ((a # f) @ l, r')) (cut_gap r)"
      unfolding ih by (simp add: option.map_comp comp_def split_def)
    finally show ?thesis .
  qed
qed

lemma cut_gap_colon:
  "s \<noteq> [] \<Longrightarrow> hd s \<noteq> CHR '':'' \<Longrightarrow>
     cut_gap (CHR '':'' # s) = map_option (\<lambda>(l, r). (CHR '':'' # l, r)) (cut_gap s)"
  by (cases s) simp_all

lemma cut_gap_colons:
  assumes "\<forall>g \<in> set gs. g \<noteq> [] \<and> CHR '':'' \<notin> set g"
  shows "cut_gap (colons gs) = None" and "cut_gap (colons gs @ ''::'' @ r) = Some (colons gs, r)"
  using assms
proof (induction gs rule: colons.induct)
  case 1
  { case 1 show ?case by simp }
  { case 2 show ?case by simp }
next
  case (2 g)
  { case 1 then show ?case using cut_gap_plain[of g "[]"] by simp }
  { case 2 then show ?case using cut_gap_plain[of g "''::'' @ r"] by simp }
next
  case (3 g v va)
  { case 1
    then have g: "CHR '':'' \<notin> set g" and v: "v \<noteq> []" "hd v \<noteq> CHR '':''"
      and rest: "\<forall>g \<in> set (v # va). g \<noteq> [] \<and> CHR '':'' \<notin> set g"
      by (auto simp: neq_Nil_conv)
    have ne: "colons (v # va) \<noteq> []" "hd (colons (v # va)) \<noteq> CHR '':''"
      using v by (simp_all add: colons_Cons)
    from "3.IH"(1)[OF rest] have "cut_gap (colons (v # va)) = None" .
    then have "cut_gap (CHR '':'' # colons (v # va)) = None"
      using cut_gap_colon[OF ne] by simp
    then show ?case using cut_gap_plain[OF g, of "CHR '':'' # colons (v # va)"] by simp }
  { case 2
    then have g: "CHR '':'' \<notin> set g" and v: "v \<noteq> []" "hd v \<noteq> CHR '':''"
      and rest: "\<forall>g \<in> set (v # va). g \<noteq> [] \<and> CHR '':'' \<notin> set g"
      by (auto simp: neq_Nil_conv)
    have ne: "colons (v # va) @ ''::'' @ r \<noteq> []" "hd (colons (v # va) @ ''::'' @ r) \<noteq> CHR '':''"
      using v by (simp_all add: colons_Cons)
    from "3.IH"(2)[OF rest]
    have "cut_gap (colons (v # va) @ ''::'' @ r) = Some (colons (v # va), r)" .
    then have "cut_gap (CHR '':'' # colons (v # va) @ ''::'' @ r) =
        Some (CHR '':'' # colons (v # va), r)"
      using cut_gap_colon[OF ne] by simp
    then show ?case using cut_gap_plain[OF g, of "CHR '':'' # colons (v # va) @ ''::'' @ r"] by simp }
qed

lemma groups_value_hex:
  "\<forall>w \<in> set ws. w < 65536 \<Longrightarrow> groups_value v4 (map hex ws) = Some (concat (map bytes_of ws))"
proof (induction ws)
  case Nil
  show ?case by simp
next
  case (Cons w ws)
  then show ?case by (cases ws) (simp_all add: hex_group_hex)
qed

lemma groups_value_hex_dotted:
  "\<forall>w \<in> set ws. w < 65536 \<Longrightarrow>
     groups_value True (map hex ws @ [dotted [a, b, c, d]]) =
       Some (concat (map bytes_of ws) @ [a, b, c, d])"
proof (induction ws)
  case Nil
  have "hex_group (dotted [a, b, c, d]) = None" by (rule hex_group_dotted) simp
  then show ?case using dotted_quad_value_dotted[of a b c d] by simp
next
  case (Cons w ws)
  then have ih: "groups_value True (map hex ws @ [dotted [a, b, c, d]]) =
       Some (concat (map bytes_of ws) @ [a, b, c, d])" and w: "hex_group (hex w) = Some (bytes_of w)"
    by (simp_all add: hex_group_hex)
  obtain f fs where fs: "map hex ws @ [dotted [a, b, c, d]] = f # fs"
    by (cases "map hex ws @ [dotted [a, b, c, d]]") auto
  have "groups_value True (hex w # f # fs) = map_option ((@) (bytes_of w)) (groups_value True (f # fs))"
    using w by simp
  with ih fs show ?case by simp
qed

subsection \<open>Words and bytes\<close>

lemma bytes_of_words16:
  "2 * k \<le> length bs \<Longrightarrow> concat (map bytes_of (take k (words16 bs))) = take (2 * k) bs"
proof (induction bs arbitrary: k rule: words16.induct)
  case (1 hi lo bs)
  have hi: "unat hi < 2 ^ 8" and lo: "unat lo < 2 ^ 8"
    using unsigned_less[of hi, where ?'a = nat] unsigned_less[of lo, where ?'a = nat] by simp_all
  then have b: "bytes_of (unat hi * 256 + unat lo) = [hi, lo]"
    by (simp add: bytes_of_def)
  show ?case
  proof (cases k)
    case 0
    then show ?thesis by simp
  next
    case (Suc k')
    with "1.prems" have "2 * k' \<le> length bs" by simp
    from "1.IH"[OF this] Suc b show ?thesis by simp
  qed
qed simp_all

lemma bytes_of_words16_drop:
  "even (length bs) \<Longrightarrow> concat (map bytes_of (drop k (words16 bs))) = drop (2 * k) bs"
proof (induction bs arbitrary: k rule: words16.induct)
  case (1 hi lo bs)
  have hi: "unat hi < 2 ^ 8" and lo: "unat lo < 2 ^ 8"
    using unsigned_less[of hi, where ?'a = nat] unsigned_less[of lo, where ?'a = nat] by simp_all
  then have b: "bytes_of (unat hi * 256 + unat lo) = [hi, lo]"
    by (simp add: bytes_of_def)
  from "1.prems" have ev: "even (length bs)" by simp
  show ?case
  proof (cases k)
    case 0
    from "1.IH"[OF ev, of 0] b 0 show ?thesis by simp
  next
    case (Suc k')
    from "1.IH"[OF ev, of k'] Suc show ?thesis by simp
  qed
qed simp_all

lemma bytes_of_zeros: "concat (map bytes_of (replicate l 0)) = replicate (2 * l) 0"
  by (induction l) (simp_all add: bytes_of_def)

subsection \<open>The run that is left out\<close>

lemma zero_run_better:
  "(\<forall>x. best = Some x \<longrightarrow> zero_run ws x) \<Longrightarrow> zero_run ws c \<Longrightarrow> better_run best c = Some r \<Longrightarrow>
     zero_run ws r"
  by (auto simp: better_run_def split: option.splits if_splits)

lemma scan_runs_zero_run:
  assumes "scan_runs xs (length pre) best cur = Some r"
    and "\<forall>x. best = Some x \<longrightarrow> zero_run (pre @ xs) x"
    and "\<forall>cb cl. cur = Some (cb, cl) \<longrightarrow> cb + cl = length pre \<and> zero_run (pre @ xs) (cb, cl)"
  shows "zero_run (pre @ xs) r"
  using assms
proof (induction xs arbitrary: pre best cur)
  case Nil
  then show ?case
    by (cases cur) (auto intro: zero_run_better[of best "pre" _ r])
next
  case (Cons w ws)
  have all: "pre @ w # ws = (pre @ [w]) @ ws" by simp
  have len: "Suc (length pre) = length (pre @ [w])" by simp
  show ?case
  proof (cases "w = 0")
    case True
    show ?thesis
    proof (cases cur)
      case None
      with True Cons.prems(1)
      have run: "scan_runs ws (length (pre @ [w])) best (Some (length pre, 1)) = Some r" by simp
      have "zero_run ((pre @ [w]) @ ws) (length pre, 1)"
        using True by (auto simp: zero_run_def nth_append)
      with Cons.prems(2) show ?thesis
        unfolding all by (intro Cons.IH[OF run]) auto
    next
      case (Some c)
      obtain cb cl where c: "c = (cb, cl)" by (cases c)
      with Some True Cons.prems(1)
      have run: "scan_runs ws (length (pre @ [w])) best (Some (cb, Suc cl)) = Some r" by simp
      from Cons.prems(3) Some c have cur: "cb + cl = length pre" "zero_run (pre @ w # ws) (cb, cl)"
        by simp_all
      have "zero_run ((pre @ [w]) @ ws) (cb, Suc cl)"
        unfolding zero_run_def
      proof (intro conjI allI impI)
        show "fst (cb, Suc cl) + snd (cb, Suc cl) \<le> length ((pre @ [w]) @ ws)"
          using cur(1) by simp
        fix j assume j: "fst (cb, Suc cl) \<le> j \<and> j < fst (cb, Suc cl) + snd (cb, Suc cl)"
        show "((pre @ [w]) @ ws) ! j = 0"
        proof (cases "j = length pre")
          case True
          with \<open>w = 0\<close> show ?thesis by (simp add: nth_append)
        next
          case False
          with j cur(1) have "cb \<le> j \<and> j < cb + cl" by simp
          with cur(2) show ?thesis by (simp add: zero_run_def)
        qed
      qed
      with Cons.prems(2) cur(1) show ?thesis
        unfolding all by (intro Cons.IH[OF run]) auto
    qed
  next
    case False
    show ?thesis
    proof (cases cur)
      case None
      with False Cons.prems(1)
      have run: "scan_runs ws (length (pre @ [w])) best None = Some r" by simp
      from Cons.prems(2) show ?thesis
        unfolding all by (intro Cons.IH[OF run]) auto
    next
      case (Some c)
      with False Cons.prems(1)
      have run: "scan_runs ws (length (pre @ [w])) (better_run best c) None = Some r" by simp
      from Cons.prems(3) Some have "zero_run (pre @ w # ws) c" by (cases c) simp
      with Cons.prems(2) have "\<forall>x. better_run best c = Some x \<longrightarrow> zero_run ((pre @ [w]) @ ws) x"
        by (auto intro: zero_run_better[of best "pre @ w # ws" c])
      then show ?thesis
        unfolding all by (intro Cons.IH[OF run]) auto
    qed
  qed
qed

lemma best_run_props:
  assumes "best_run ws = Some (b, l)"
  shows "2 \<le> l" and "b + l \<le> length ws" and "take l (drop b ws) = replicate l 0"
proof -
  from assms have scan: "scan_runs ws (length ([] :: nat list)) None None = Some (b, l)" and l: "2 \<le> l"
    by (auto simp: best_run_def split: option.splits if_splits)
  from scan_runs_zero_run[OF scan] have z: "zero_run ws (b, l)" by simp
  show "2 \<le> l" by (rule l)
  from z show "b + l \<le> length ws" by (simp add: zero_run_def)
  from z show "take l (drop b ws) = replicate l 0"
    by (auto simp: zero_run_def list_eq_iff_nth_eq)
qed

subsection \<open>What the printing loop prints\<close>

lemma print_words_before:
  "1 \<le> i \<Longrightarrow> i + length A \<le> b \<Longrightarrow>
     print_words (Some (b, l)) False v4 (A @ rest) i =
       colon_each (map hex A) @ print_words (Some (b, l)) False v4 rest (i + length A)"
proof (induction A arbitrary: i)
  case Nil
  show ?case by (simp add: colon_each_Nil)
next
  case (Cons a A)
  from Cons.prems have "\<not> in_run (Some (b, l)) i" by (simp add: in_run_def)
  moreover from Cons.prems have "1 \<le> Suc i" "Suc i + length A \<le> b" by simp_all
  note Cons.IH[OF this]
  ultimately show ?case using Cons.prems by (simp add: colon_each_Cons)
qed

lemma print_words_inside:
  "b \<le> i \<Longrightarrow> i + length Z \<le> b + l \<Longrightarrow>
     print_words (Some (b, l)) enc v4 (Z @ rest) i =
       (if i = b \<and> Z \<noteq> [] then '':'' else []) @
       print_words (Some (b, l)) enc v4 rest (i + length Z)"
proof (induction Z arbitrary: i)
  case Nil
  show ?case by simp
next
  case (Cons z Z)
  from Cons.prems have "in_run (Some (b, l)) i" by (simp add: in_run_def)
  moreover from Cons.prems have "b \<le> Suc i" "Suc i + length Z \<le> b + l" "Suc i \<noteq> b" by simp_all
  note Cons.IH[OF this(1,2)] this(3)
  ultimately show ?case by (simp add: run_base_def)
qed

lemma print_words_after:
  "1 \<le> i \<Longrightarrow> \<forall>j \<ge> i. \<not> in_run run j \<Longrightarrow>
     print_words run False v4 B i = colon_each (map hex B)"
proof (induction B arbitrary: i)
  case Nil
  show ?case by (simp add: colon_each_Nil)
next
  case (Cons a B)
  from Cons.prems have "\<not> in_run run i" by simp
  moreover from Cons.prems have "1 \<le> Suc i" "\<forall>j \<ge> Suc i. \<not> in_run run j" by simp_all
  note Cons.IH[OF this]
  ultimately show ?case using Cons.prems(1) by (simp add: colon_each_Cons)
qed

lemma print_words_no_run:
  "print_words None False v4 ws 0 = colons (map hex ws)"
proof (cases ws)
  case Nil
  then show ?thesis by simp
next
  case (Cons w ws')
  have "print_words None False v4 ws' (Suc 0) = colon_each (map hex ws')"
    by (rule print_words_after) (simp_all add: in_run_def)
  with Cons show ?thesis by (simp add: in_run_def colons_Cons)
qed

lemma split3: "xs = take b xs @ take l (drop b xs) @ drop (b + l) xs"
proof -
  have "drop (b + l) xs = drop l (drop b xs)" by (simp add: add.commute)
  then show ?thesis by (simp del: drop_drop)
qed

lemma print_words_run:
  assumes "b + l \<le> length ws" and "1 \<le> l"
  shows "print_words (Some (b, l)) False v4 ws 0 @ (if b + l = length ws then '':'' else []) =
           colons (map hex (take b ws)) @ ''::'' @ colons (map hex (drop (b + l) ws))"
proof -
  define A where "A = take b ws"
  define Z where "Z = take l (drop b ws)"
  define B where "B = drop (b + l) ws"
  have ws: "ws = A @ Z @ B" unfolding A_def Z_def B_def by (rule split3)
  have lenA: "length A = b" and lenZ: "length Z = l"
    using assms by (simp_all add: A_def Z_def)
  have Zne: "Z \<noteq> []" using lenZ assms(2) by auto
  have B: "b + l = length ws \<longleftrightarrow> B = []" using assms by (auto simp: B_def)
  have after: "print_words (Some (b, l)) False v4 B (b + l) = colon_each (map hex B)"
    using assms(2) by (intro print_words_after) (simp_all add: in_run_def)
  have tail: "'':'' @ colon_each (map hex B) @ (if B = [] then '':'' else []) =
      ''::'' @ colons (map hex B)"
    by (cases B) (simp_all add: colon_each_Nil colon_each_colons)
  have inside: "print_words (Some (b, l)) False v4 (Z @ B) b =
      '':'' @ print_words (Some (b, l)) False v4 B (b + l)"
    using print_words_inside[of b b Z l False v4 B] Zne lenZ by simp
  have main: "print_words (Some (b, l)) False v4 (A @ Z @ B) 0 @ (if B = [] then '':'' else []) =
      colons (map hex A) @ ''::'' @ colons (map hex B)"
  proof (cases A)
    case Nil
    with lenA have b0: "b = 0" by simp
    from inside after have "print_words (Some (b, l)) False v4 (Z @ B) 0 =
        '':'' @ colon_each (map hex B)" using b0 by simp
    with tail show ?thesis using Nil by simp
  next
    case (Cons a A')
    with lenA have b: "b = Suc (length A')" by simp
    have first: "print_words (Some (b, l)) False v4 (a # A' @ Z @ B) 0 =
        hex a @ print_words (Some (b, l)) False v4 (A' @ Z @ B) (Suc 0)"
      using b by (simp add: in_run_def)
    have "print_words (Some (b, l)) False v4 (A' @ Z @ B) (Suc 0) =
        colon_each (map hex A') @ print_words (Some (b, l)) False v4 (Z @ B) b"
      using print_words_before[of "Suc 0" A' b l v4 "Z @ B"] b by simp
    with first inside after
    have "print_words (Some (b, l)) False v4 (A @ Z @ B) 0 =
        colons (map hex A) @ '':'' @ colon_each (map hex B)"
      by (simp add: Cons colons_Cons)
    with tail show ?thesis by simp
  qed
  have "print_words (Some (b, l)) False v4 ws 0 @ (if B = [] then '':'' else []) =
      colons (map hex A) @ ''::'' @ colons (map hex B)"
    using main ws by simp
  then show ?thesis unfolding B by (simp add: A_def B_def)
qed

subsection \<open>Reading the text of an address\<close>

lemma colon_hex_value_groups:
  assumes "\<forall>g \<in> set gs. g \<noteq> [] \<and> CHR '':'' \<notin> set g"
    and "groups_value True gs = Some bs" and "length bs = 16"
  shows "colon_hex_value (colons gs) = Some bs"
  using assms by (simp add: colon_hex_value_def cut_gap_colons(1) part_value_colons)

lemma colon_hex_value_gap:
  assumes "\<forall>g \<in> set A. g \<noteq> [] \<and> CHR '':'' \<notin> set g"
    and "\<forall>g \<in> set B. g \<noteq> [] \<and> CHR '':'' \<notin> set g"
    and "groups_value False A = Some a" and "groups_value True B = Some b"
    and "length a + length b \<le> 14"
  shows "colon_hex_value (colons A @ ''::'' @ colons B) =
           Some (a @ replicate (16 - (length a + length b)) 0 @ b)"
proof -
  have "cut_gap (colons A @ ''::'' @ colons B) = Some (colons A, colons B)"
    using assms(1) by (rule cut_gap_colons(2))
  with assms show ?thesis
    by (simp add: colon_hex_value_def part_value_colons del: append.simps)
qed

lemma hex_groups_plain: "\<forall>g \<in> set (map hex ws). g \<noteq> [] \<and> CHR '':'' \<notin> set g"
  by (simp add: hex_digits(1) hex_plain)

lemma inet_ntop4_reads:
  assumes "4 \<le> length src"
  shows "dotted_quad_value (inet_ntop4 src) = Some (take 4 src)"
proof -
  from assms obtain a b c d rest where "src = a # b # c # d # rest"
    by (cases src rule: dotted.cases; simp; cases "tl (tl src)" rule: dotted.cases; auto)
  then show ?thesis by (simp add: inet_ntop4_def dotted_quad_value_dotted del: dotted.simps)
qed

lemma list4: "length xs = 4 \<Longrightarrow> \<exists>a b c d. xs = [a, b, c, d]"
  by (auto simp: length_Suc_conv numeral_eq_Suc)

lemma list2: "length xs = 2 \<Longrightarrow> \<exists>a b. xs = [a, b]"
  by (auto simp: length_Suc_conv numeral_eq_Suc)

lemma take_split: "l \<le> n \<Longrightarrow> take n xs = take l xs @ drop l (take n xs)"
  by (metis append_take_drop_id min.absorb1 take_take)

lemma words16_drop: "words16 (drop (2 * k) xs) = drop k (words16 xs)"
proof (induction xs arbitrary: k rule: words16.induct)
  case (1 hi lo bs)
  then show ?case by (cases k) simp_all
qed (simp_all add: drop_Cons split: nat.splits)

lemma inet_ntop6_reads:
  assumes len: "length src = 16"
  shows "colon_hex_value (inet_ntop6 src) = Some src"
proof -
  define ws where "ws = words16 src"
  define v4 where "v4 = inet_ntop4 (drop 12 src)"
  have lws: "length ws = 8" and small: "\<forall>w \<in> set ws. w < 65536"
    using words16_props[of src] len by (simp_all add: ws_def)
  have btake: "concat (map bytes_of (take k ws)) = take (2 * k) src" if "k \<le> 8" for k
    unfolding ws_def using that len by (intro bytes_of_words16) simp
  have bdrop: "concat (map bytes_of (drop k ws)) = drop (2 * k) src" for k
    unfolding ws_def using len by (intro bytes_of_words16_drop) simp
  have shape: "inet_ntop6 src =
      print_words (best_run ws) (encapsulated (best_run ws) ws) v4 ws 0 @
      (case best_run ws of None \<Rightarrow> [] | Some (b, l) \<Rightarrow> if b + l = 8 then '':'' else [])"
    using len by (simp add: inet_ntop6_def Let_def ws_def v4_def)
  have smallsub: "\<forall>w \<in> set (take k ws). w < 65536" "\<forall>w \<in> set (drop k ws). w < 65536" for k
    using small by (auto dest: in_set_takeD in_set_dropD)
  show ?thesis
  proof (cases "best_run ws")
    case None
    then have "inet_ntop6 src = colons (map hex ws)"
      by (simp add: shape encapsulated_def print_words_no_run)
    moreover have "groups_value True (map hex ws) = Some src"
      using groups_value_hex[OF small, of True] btake[of 8] lws len by simp
    ultimately show ?thesis
      using colon_hex_value_groups[OF hex_groups_plain, of ws src] len by simp
  next
    case (Some r)
    obtain b l where r: "r = (b, l)" by (cases r)
    with Some have run: "best_run ws = Some (b, l)" by simp
    from best_run_props[OF run] lws
    have l2: "2 \<le> l" and bl: "b + l \<le> 8" and zeros: "take l (drop b ws) = replicate l 0"
      by simp_all
    have zbytes: "take (2 * l) (drop (2 * b) src) = replicate (2 * l) 0"
    proof -
      have "concat (map bytes_of (take l (drop b ws))) = take (2 * l) (drop (2 * b) src)"
      proof -
        have "drop b ws = words16 (drop (2 * b) src)"
        proof -
          show ?thesis by (simp add: ws_def words16_drop)
        qed
        moreover have "2 * l \<le> length (drop (2 * b) src)" using bl len by simp
        ultimately show ?thesis using bytes_of_words16[of l "drop (2 * b) src"] by simp
      qed
      with zeros bytes_of_zeros[of l] show ?thesis by simp
    qed
    have whole: "src = take (2 * b) src @ replicate (2 * l) 0 @ drop (2 * b + 2 * l) src"
      using split3[of src "2 * b" "2 * l"] zbytes by simp
    show ?thesis
    proof (cases "encapsulated (Some (b, l)) ws")
      case False
      have "inet_ntop6 src =
          colons (map hex (take b ws)) @ ''::'' @ colons (map hex (drop (b + l) ws))"
        using print_words_run[of b l ws v4] bl l2 lws
        by (simp add: shape run False del: append.simps)
      moreover have "groups_value False (map hex (take b ws)) = Some (take (2 * b) src)"
        using groups_value_hex[OF smallsub(1), of False b] btake[of b] bl by simp
      moreover have "groups_value True (map hex (drop (b + l) ws)) = Some (drop (2 * b + 2 * l) src)"
        using groups_value_hex[OF smallsub(2), of True "b + l"] bdrop[of "b + l"]
        by (simp add: distrib_left)
      moreover have "length (take (2 * b) src) + length (drop (2 * b + 2 * l) src) = 16 - 2 * l"
        using bl len by simp
      ultimately have "colon_hex_value (inet_ntop6 src) =
          Some (take (2 * b) src @ replicate (16 - (16 - 2 * l)) 0 @ drop (2 * b + 2 * l) src)"
        using colon_hex_value_gap[OF hex_groups_plain hex_groups_plain,
            of "take b ws" "take (2 * b) src" "drop (b + l) ws" "drop (2 * b + 2 * l) src"] l2
        by simp
      moreover have "16 - (16 - 2 * l) = 2 * l" using bl by simp
      ultimately show ?thesis using whole by simp
    next
      case True
      then have b0: "b = 0" and l56: "l = 6 \<or> l = 5" by (auto simp: encapsulated_def)
      obtain q0 q1 q2 q3 where q: "drop 12 src = [q0, q1, q2, q3]"
      proof -
        have "length (drop 12 src) = 4" using len by simp
        from list4[OF this] that show ?thesis by blast
      qed
      then have v4: "v4 = dotted [q0, q1, q2, q3]" by (simp add: v4_def inet_ntop4_def)
      define M where "M = drop l (take 6 ws)"
      have Msmall: "\<forall>w \<in> set M. w < 65536"
        using small unfolding M_def by (auto dest!: in_set_dropD in_set_takeD)
      have body: "print_words (Some (0, l)) True v4 ws 0 = ''::'' @ colons (map hex M @ [v4])"
      proof -
        have ws3: "ws = take l ws @ M @ drop 6 ws"
          using split3[of ws l "6 - l"] l56 by (auto simp: M_def take_drop)
        obtain t0 t1 where t: "drop 6 ws = [t0, t1]"
        proof -
          have "length (drop 6 ws) = 2" using lws by simp
          from list2[OF this] that show ?thesis by blast
        qed
        have first: "print_words (Some (0, l)) True v4 (take l ws @ M @ drop 6 ws) 0 =
            '':'' @ print_words (Some (0, l)) True v4 (M @ drop 6 ws) l"
          using print_words_inside[of 0 0 "take l ws" l True v4 "M @ drop 6 ws"] l56 lws by auto
        from l56 show ?thesis
        proof
          assume l: "l = 6"
          then have "M = []" by (simp add: M_def)
          with first t l ws3 show ?thesis by (simp add: in_run_def)
        next
          assume l: "l = 5"
          then have "length M = 1" using lws by (simp add: M_def)
          then obtain m where "M = [m]" by (auto simp: length_Suc_conv)
          with first t l ws3 show ?thesis by (simp add: in_run_def)
        qed
      qed
      have "inet_ntop6 src = ''::'' @ colons (map hex M @ [v4])"
        using body True l56 by (auto simp: shape run b0)
      then have form: "inet_ntop6 src = colons [] @ ''::'' @ colons (map hex M @ [v4])" by simp
      have plain: "\<forall>g \<in> set (map hex M @ [v4]). g \<noteq> [] \<and> CHR '':'' \<notin> set g"
        using hex_groups_plain[of M] dotted_plain[of "[q0, q1, q2, q3]"]
          dotted_not_empty[of "[q0, q1, q2, q3]"] by (auto simp: v4)
      have right: "groups_value True (map hex M @ [v4]) =
          Some (concat (map bytes_of M) @ [q0, q1, q2, q3])"
        unfolding v4 using Msmall by (rule groups_value_hex_dotted)
      have Mbytes: "concat (map bytes_of M) = drop (2 * l) (take 12 src)"
      proof -
        have "take 6 ws = take l ws @ M" unfolding M_def using l56 by (intro take_split) auto
        then have "concat (map bytes_of (take 6 ws)) =
            concat (map bytes_of (take l ws)) @ concat (map bytes_of M)" by simp
        then have "take 12 src = take (2 * l) src @ concat (map bytes_of M)"
          using btake[of 6] btake[of l] l56 by auto
        moreover have "length (take (2 * l) src) = 2 * l" using l56 len by auto
        ultimately show ?thesis by (metis append_eq_conv_conj)
      qed
      have lenM: "length (concat (map bytes_of M)) = 12 - 2 * l"
        using Mbytes len l56 by auto
      have "colon_hex_value (inet_ntop6 src) =
          Some ([] @ replicate (16 - (length ([] :: byte list) +
              length (concat (map bytes_of M) @ [q0, q1, q2, q3]))) 0 @
            concat (map bytes_of M) @ [q0, q1, q2, q3])"
        unfolding form
        using l2 by (intro colon_hex_value_gap[OF _ plain _ right]) (simp_all add: lenM)
      then have "colon_hex_value (inet_ntop6 src) =
          Some (replicate (2 * l) 0 @ drop (2 * l) (take 12 src) @ drop 12 src)"
        using lenM l56 by (auto simp: Mbytes q)
      moreover have "take (2 * l) src = replicate (2 * l) 0"
        using zbytes b0 by simp
      moreover have "src = take (2 * l) src @ drop (2 * l) (take 12 src) @ drop 12 src"
      proof -
        have "take 12 src = take (2 * l) src @ drop (2 * l) (take 12 src)"
          using l56 by (intro take_split) auto
        then show ?thesis by (metis append_take_drop_id append.assoc)
      qed
      ultimately show ?thesis by simp
    qed
  qed
qed

subsection \<open>The heap\<close>

lemma fresh_block_new: "fresh_block h \<notin> fst ` set (blocks h)"
  and fresh_block_not_null: "0 < fresh_block h"
proof -
  have "\<forall>a \<in> set xs. a \<le> fold max xs m" and "m \<le> fold max xs m" for xs :: "nat list" and m
  proof (induction xs arbitrary: m)
    case Nil
    { case 1 show ?case by simp next case 2 show ?case by simp }
  next
    case (Cons x xs)
    { case 1
      have "max x m \<le> fold max xs (max x m)" by (rule Cons.IH(2))
      with Cons.IH(1)[of "max x m"] show ?case by auto
    next
      case 2
      have "max x m \<le> fold max xs (max x m)" by (rule Cons.IH(2))
      then show ?case by simp }
  qed
  then have "\<forall>a \<in> set (map fst (blocks h)). a < fresh_block h"
    by (auto simp: fresh_block_def less_Suc_eq_le)
  then show "fresh_block h \<notin> fst ` set (blocks h)" by auto
  show "0 < fresh_block h" by (simp add: fresh_block_def)
qed

lemma fresh_block_allocs [simp]: "fresh_block (h\<lparr>allocs := as\<rparr>) = fresh_block h"
  by (simp add: fresh_block_def)

lemma next_alloc_served:
  "next_alloc h = (served h, h\<lparr>allocs := tl (allocs h)\<rparr>)"
  by (cases "allocs h") (simp_all add: next_alloc_def served_def)

lemma inet_ntop_into_fresh:
  assumes "inet_ntop af src sz = Some t" and "p \<notin> fst ` set (blocks h)"
  shows "inet_ntop_into (h\<lparr>blocks := (p, None) # blocks h\<rparr>) p af src sz =
           Some (h\<lparr>blocks := (p, Some t) # blocks h\<rparr>)"
proof -
  have "map (\<lambda>(a, c). if a = p then (a, Some t) else (a, c)) (blocks h) = blocks h"
    using assms(2) by (induction "blocks h") (auto simp: image_iff intro!: map_idI)
  then show ?thesis by (simp add: inet_ntop_into_def assms(1))
qed

lemma inet_ntop_fits4: "inet_ntop AF_INET src INET_ADDRSTRLEN = Some (inet_ntop4 src)"
  using length_inet_ntop4[of src] by (simp add: inet_ntop_def INET_ADDRSTRLEN_def)

lemma inet_ntop_fits6:
  "length src = 16 \<Longrightarrow> inet_ntop AF_INET6 src INET6_ADDRSTRLEN = Some (inet_ntop6 src)"
  using length_inet_ntop6[of src]
  by (simp add: inet_ntop_def INET6_ADDRSTRLEN_def AF_INET_def AF_INET6_def)

lemma anetAddrStrdup_served:
  assumes "whole_sockaddr res" and "served h"
  shows "\<exists>p t. anetAddrStrdup h res =
             Some (p, h\<lparr>blocks := (p, Some t) # blocks h, allocs := tl (allocs h)\<rparr>) \<and>
           p \<noteq> 0 \<and> p \<notin> fst ` set (blocks h) \<and> presents res t"
proof -
  let ?h1 = "h\<lparr>allocs := tl (allocs h)\<rparr>"
  let ?p = "fresh_block h"
  have p: "?p \<noteq> 0" "?p \<notin> fst ` set (blocks h)"
    using fresh_block_new[of h] fresh_block_not_null[of h] by simp_all
  have fresh1: "?p \<notin> fst ` set (blocks ?h1)" using p(2) by simp
  have m: "malloc h n = (?p, ?h1\<lparr>blocks := (?p, None) # blocks ?h1\<rparr>)" for n
    using assms(2) by (simp add: malloc_def next_alloc_served)
  have s: "strdup h t = (?p, h\<lparr>blocks := (?p, Some t) # blocks h, allocs := tl (allocs h)\<rparr>)" for t
    using assms(2) by (simp add: strdup_def next_alloc_served)
  consider (null) "res = None"
    | (v4) sa where "res = Some sa" "sa_family sa = AF_INET"
    | (v6) sa where "res = Some sa" "sa_family sa \<noteq> AF_INET" "sa_family sa = AF_INET6"
    | (other) sa where "res = Some sa" "sa_family sa \<noteq> AF_INET" "sa_family sa \<noteq> AF_INET6"
    by (cases res) (auto simp: AF_INET_def AF_INET6_def)
  then show ?thesis
  proof cases
    case null
    then have "anetAddrStrdup h res =
        Some (?p, h\<lparr>blocks := (?p, Some ''NOT_AN_ADDRESS'') # blocks h, allocs := tl (allocs h)\<rparr>)"
      by (simp add: anetAddrStrdup_def has_family_def s)
    moreover from null have "presents res ''NOT_AN_ADDRESS''" by (simp add: presents_def)
    ultimately show ?thesis using p by blast
  next
    case v4
    let ?t = "inet_ntop4 (sin_addr sa)"
    from assms(1) v4 have "16 \<le> length sa" by (simp add: whole_sockaddr_def)
    then have "4 \<le> length (sin_addr sa)" by (simp add: sin_addr_def)
    from inet_ntop4_reads[OF this] have "dotted_quad_value ?t = Some (take 4 (drop 4 sa))"
      by (simp add: sin_addr_def)
    with v4 have pres: "presents res ?t" by (simp add: presents_def)
    have "inet_ntop_into (?h1\<lparr>blocks := (?p, None) # blocks ?h1\<rparr>) ?p AF_INET (sin_addr sa)
        INET_ADDRSTRLEN = Some (?h1\<lparr>blocks := (?p, Some ?t) # blocks ?h1\<rparr>)"
      using inet_ntop_fits4 fresh1 by (rule inet_ntop_into_fresh)
    with v4 have "anetAddrStrdup h res =
        Some (?p, h\<lparr>blocks := (?p, Some ?t) # blocks h, allocs := tl (allocs h)\<rparr>)"
      by (simp add: anetAddrStrdup_def has_family_def m)
    with pres p show ?thesis by blast
  next
    case v6
    let ?t = "inet_ntop6 (sin6_addr sa)"
    from assms(1) v6 have "28 \<le> length sa" by (simp add: whole_sockaddr_def)
    then have len: "length (sin6_addr sa) = 16" by (simp add: sin6_addr_def)
    from inet_ntop6_reads[OF this] have "colon_hex_value ?t = Some (take 16 (drop 8 sa))"
      by (simp add: sin6_addr_def)
    with v6 have pres: "presents res ?t" by (simp add: presents_def)
    have "inet_ntop_into (?h1\<lparr>blocks := (?p, None) # blocks ?h1\<rparr>) ?p AF_INET6 (sin6_addr sa)
        INET6_ADDRSTRLEN = Some (?h1\<lparr>blocks := (?p, Some ?t) # blocks ?h1\<rparr>)"
      using inet_ntop_fits6[OF len] fresh1 by (rule inet_ntop_into_fresh)
    with v6 have "anetAddrStrdup h res =
        Some (?p, h\<lparr>blocks := (?p, Some ?t) # blocks h, allocs := tl (allocs h)\<rparr>)"
      by (simp add: anetAddrStrdup_def has_family_def m)
    with pres p show ?thesis by blast
  next
    case other
    then have "anetAddrStrdup h res =
        Some (?p, h\<lparr>blocks := (?p, Some ''NOT_AN_ADDRESS'') # blocks h, allocs := tl (allocs h)\<rparr>)"
      by (simp add: anetAddrStrdup_def has_family_def s)
    moreover from other have "presents res ''NOT_AN_ADDRESS''" by (simp add: presents_def)
    ultimately show ?thesis using p by blast
  qed
qed

lemma anetAddrStrdup_refused:
  assumes "\<not> served h" and "\<not> has_family res AF_INET" and "\<not> has_family res AF_INET6"
  shows "anetAddrStrdup h res = Some (0, h\<lparr>allocs := tl (allocs h)\<rparr>)"
  using assms by (simp add: anetAddrStrdup_def strdup_def next_alloc_served)

subsection \<open>The result of \<open>anetAddrStrdup\<close>\<close>

text \<open>
  C5, as amended. Let the argument be \<^verbatim>\<open>NULL\<close> or a socket address that is a whole
  object of its family. If the allocator serves the request, \<open>anetAddrStrdup\<close> returns a
  pointer that is not \<^verbatim>\<open>NULL\<close> to a block that was not allocated before, the heap is the
  old heap with that one block added, and the block holds: for the family \<open>AF_INET\<close> a
  text that reads, as a dotted quad, as the four address bytes; for \<open>AF_INET6\<close> a text that
  reads, as colon-hex, as the sixteen address bytes; for any other family and for \<^verbatim>\<open>NULL\<close>
  the string \<^verbatim>\<open>NOT_AN_ADDRESS\<close>. In particular the two buffer sizes are large enough for
  \<^verbatim>\<open>inet_ntop\<close> never to fail. If the allocator does not serve the request and the
  argument is \<^verbatim>\<open>NULL\<close> or of another family, the call returns \<^verbatim>\<open>NULL\<close> and allocates
  nothing.
\<close>

theorem anetAddrStrdup_presentation:
  assumes "whole_sockaddr res"
  shows "(served h \<longrightarrow>
            (\<exists>p t. anetAddrStrdup h res =
                      Some (p, h\<lparr>blocks := (p, Some t) # blocks h, allocs := tl (allocs h)\<rparr>) \<and>
                    p \<noteq> 0 \<and> p \<notin> fst ` set (blocks h) \<and> presents res t)) \<and>
         (\<not> served h \<and> \<not> has_family res AF_INET \<and> \<not> has_family res AF_INET6 \<longrightarrow>
            anetAddrStrdup h res = Some (0, h\<lparr>allocs := tl (allocs h)\<rparr>))"
  using anetAddrStrdup_served[OF assms, of h] anetAddrStrdup_refused[of h res] by blast

text \<open>
  The claim C5 as stated fails: with no memory left, \<open>anetAddrStrdup\<close> on \<^verbatim>\<open>NULL\<close> and on
  an address of another family returns \<^verbatim>\<open>NULL\<close>, not a string, and the heap has the
  blocks it had.
\<close>

theorem anetAddrStrdup_null_result:
  "anetAddrStrdup exhausted_heap None = Some (0, \<lparr>blocks = [(1, Some ''readsb'')], allocs = []\<rparr>) \<and>
   anetAddrStrdup exhausted_heap (Some unix_addr) =
     Some (0, \<lparr>blocks = [(1, Some ''readsb'')], allocs = []\<rparr>)"
  by code_simp

theorem anetAddrStrdup_presentation_witness:
  "(\<exists>p t. anetAddrStrdup empty_heap (Some peer6) = Some (p, \<lparr>blocks = [(p, Some t)], allocs = []\<rparr>) \<and>
          p \<noteq> 0 \<and>
          colon_hex_value t = Some [32, 1, 13, 184, 0, 0, 0, 0, 0, 0, 0, 0, 0, 0, 0, 7]) \<and>
   (\<exists>p t. anetAddrStrdup empty_heap (Some doc_addr4) = Some (p, \<lparr>blocks = [(p, Some t)], allocs = []\<rparr>) \<and>
          p \<noteq> 0 \<and> dotted_quad_value t = Some [192, 0, 2, 7]) \<and>
   anetAddrStrdup exhausted_heap None = Some (0, \<lparr>blocks = [(1, Some ''readsb'')], allocs = []\<rparr>)"
proof (intro conjI)
  have s: "served empty_heap" by code_simp
  have w6: "whole_sockaddr (Some peer6)" by code_simp
  have p6: "presents (Some peer6) t \<longleftrightarrow>
      colon_hex_value t = Some [32, 1, 13, 184, 0, 0, 0, 0, 0, 0, 0, 0, 0, 0, 0, 7]" for t
    by (simp add: presents_def peer6_def sa_family_def AF_INET_def AF_INET6_def)
  from anetAddrStrdup_presentation[OF w6, of empty_heap] s
  show "\<exists>p t. anetAddrStrdup empty_heap (Some peer6) = Some (p, \<lparr>blocks = [(p, Some t)], allocs = []\<rparr>) \<and>
          p \<noteq> 0 \<and>
          colon_hex_value t = Some [32, 1, 13, 184, 0, 0, 0, 0, 0, 0, 0, 0, 0, 0, 0, 7]"
    by (auto simp: p6 empty_heap_def)
  have w4: "whole_sockaddr (Some doc_addr4)" by code_simp
  have p4: "presents (Some doc_addr4) t \<longleftrightarrow> dotted_quad_value t = Some [192, 0, 2, 7]" for t
    by (simp add: presents_def doc_addr4_def sa_family_def AF_INET_def)
  from anetAddrStrdup_presentation[OF w4, of empty_heap] s
  show "\<exists>p t. anetAddrStrdup empty_heap (Some doc_addr4) =
          Some (p, \<lparr>blocks = [(p, Some t)], allocs = []\<rparr>) \<and>
          p \<noteq> 0 \<and> dotted_quad_value t = Some [192, 0, 2, 7]"
    by (auto simp: p4 empty_heap_def)
  have wn: "whole_sockaddr None" by code_simp
  have n: "\<not> served exhausted_heap \<and> \<not> has_family None AF_INET \<and> \<not> has_family None AF_INET6"
    by code_simp
  from anetAddrStrdup_presentation[OF wn, of exhausted_heap] n
  show "anetAddrStrdup exhausted_heap None =
      Some (0, \<lparr>blocks = [(1, Some ''readsb'')], allocs = []\<rparr>)"
    by (simp add: exhausted_heap_def)
qed

text \<open>
  The texts of some addresses: the IPv4 address of the spec's scenario, an IPv6 address
  with a run of zero words, the IPv6 loopback address and an IPv4-mapped address. With no
  memory left and an address of the family \<open>AF_INET\<close>, \<^verbatim>\<open>inet_ntop\<close> is given the \<^verbatim>\<open>NULL\<close>
  that \<^verbatim>\<open>malloc\<close> returned.
\<close>

lemma digit_char_table: "d < 16 \<Longrightarrow> digit_char d = ''0123456789abcdef'' ! d"
proof -
  assume d: "d < 16"
  have "map digit_char [0..<16] = ''0123456789abcdef''" by code_simp
  then have "map digit_char [0..<16] ! d = ''0123456789abcdef'' ! d" by simp
  moreover have "map digit_char [0..<16] ! d = digit_char d"
    using d by (simp del: upt_Suc map_upt_Suc)
  ultimately show ?thesis by simp
qed

lemmas anetAddrStrdup_run =
  anetAddrStrdup_def has_family_def sa_family_def AF_INET_def AF_INET6_def malloc_def strdup_def
  next_alloc_def fresh_block_def inet_ntop_into_def inet_ntop_def INET_ADDRSTRLEN_def
  INET6_ADDRSTRLEN_def sin_addr_def sin6_addr_def inet_ntop6_def best_run_def better_run_def
  in_run_def run_base_def encapsulated_def hex.simps dec.simps digit_char_table Let_def
  inet_ntop4_def

lemma anetAddrStrdup_texts:
  "anetAddrStrdup empty_heap (Some doc_addr4) =
     Some (1, \<lparr>blocks = [(1, Some ''192.0.2.7'')], allocs = []\<rparr>)"
  "anetAddrStrdup empty_heap (Some peer6) =
     Some (1, \<lparr>blocks = [(1, Some ''2001:db8::7'')], allocs = []\<rparr>)"
  "anetAddrStrdup empty_heap (Some (ai_addr loopback6)) =
     Some (1, \<lparr>blocks = [(1, Some ''::1'')], allocs = []\<rparr>)"
  "anetAddrStrdup empty_heap (Some mapped6) =
     Some (1, \<lparr>blocks = [(1, Some ''::ffff:192.0.2.7'')], allocs = []\<rparr>)"
  "anetAddrStrdup empty_heap (Some unix_addr) =
     Some (1, \<lparr>blocks = [(1, Some ''NOT_AN_ADDRESS'')], allocs = []\<rparr>)"
  "anetAddrStrdup exhausted_heap (Some doc_addr4) = None"
  by (simp_all add: anetAddrStrdup_run empty_heap_def exhausted_heap_def doc_addr4_def peer6_def
      loopback6_def mapped6_def unix_addr_def)


section \<open>Proofs: new descriptors\<close>

lemma lowest_free_props: "lowest_free used \<notin> set used" "0 \<le> lowest_free used"
proof -
  let ?cands = "map int [0..<Suc (length used)]"
  let ?free = "filter (\<lambda>n. n \<notin> set used) ?cands"
  have "?free \<noteq> []"
  proof
    assume "?free = []"
    then have "set ?cands \<subseteq> set used" by (auto simp: filter_empty_conv simp del: upt_Suc)
    then have "card (set ?cands) \<le> card (set used)" by (intro card_mono) auto
    moreover have "distinct ?cands" by (simp add: distinct_map inj_on_def del: upt_Suc)
    then have "card (set ?cands) = length ?cands" by (rule distinct_card)
    moreover have "card (set used) \<le> length used" by (rule card_length)
    ultimately show False by (simp del: upt_Suc)
  qed
  then obtain n ns where f: "?free = n # ns" by (cases ?free) auto
  then have "n \<in> set ?free" by simp
  then have "n \<notin> set used" "0 \<le> n" by (auto simp del: upt_Suc)
  moreover have "lowest_free used = n" using f by (simp add: lowest_free_def)
  ultimately show "lowest_free used \<notin> set used" "0 \<le> lowest_free used" by simp_all
qed

lemma lowest_free_fresh: "lowest_free (open_fds w) \<notin> fst ` set (fdtab w)"
  using lowest_free_props(1)[of "open_fds w"] by (simp add: open_fds_def)

lemma lowest_free_not_err [simp]: "lowest_free used \<noteq> -1"
  using lowest_free_props(2)[of used] by auto


section \<open>Proofs: the error sink\<close>

subsection \<open>Messages\<close>

lemma prefix_take_append: "length p \<le> n \<Longrightarrow> prefix p (take n (p @ x))"
  by (simp add: prefix_def)

lemma one_message_written:
  assumes "p \<in> set message_prefixes"
  shows "one_message (anetSetError (Some e) (p @ x))"
proof -
  from assms have "length p \<le> ANET_ERR_LEN - 1"
    by (auto simp: message_prefixes_def ANET_ERR_LEN_def)
  then have "prefix p (take (ANET_ERR_LEN - 1) (p @ x))" by (rule prefix_take_append)
  with assms have "list_ex (\<lambda>q. prefix q (take (ANET_ERR_LEN - 1) (p @ x))) message_prefixes"
    unfolding list_ex_iff by blast
  moreover have "length (take (ANET_ERR_LEN - 1) (p @ x)) < ANET_ERR_LEN"
    by (simp add: ANET_ERR_LEN_def)
  ultimately show ?thesis by (simp add: one_message_def anetSetError_def)
qed

lemma written:
  "list_ex (\<lambda>q. q = p) message_prefixes \<Longrightarrow> one_message (anetSetError (Some e) (p @ x))"
  by (rule one_message_written) (simp add: list_ex_iff)

lemma one_message_Some: "one_message err \<Longrightarrow> \<exists>m. err = Some m"
  by (cases err) (simp_all add: one_message_def)

subsection \<open>The sink after the operations that make one attempt\<close>

lemma anetNonBlock_sink:
  "anetNonBlock (Some e) fd w = (r, err', w') \<Longrightarrow>
     sink_single (Some e) r err' \<and> (r = ANET_OK \<or> r = ANET_ERR)"
  unfolding anetNonBlock_def sys_fcntl_getfl_def sys_fcntl_setfl_def sink_single_def on_fd_def
  by (auto split: prod.splits verdict.splits option.splits if_splits
      simp: ANET_ERR_def ANET_OK_def message_prefixes_def simp del: append.simps intro!: written)

lemma anetTcpNoDelay_sink:
  "anetTcpNoDelay (Some e) fd w = (r, err', w') \<Longrightarrow> sink_single (Some e) r err'"
  unfolding anetTcpNoDelay_def sys_setsockopt_def sink_single_def on_fd_def
  by (auto split: prod.splits verdict.splits option.splits if_splits
      simp: ANET_ERR_def ANET_OK_def message_prefixes_def simp del: append.simps intro!: written)

lemma anetSetSendBuffer_sink:
  "anetSetSendBuffer (Some e) fd n w = (r, err', w') \<Longrightarrow> sink_single (Some e) r err'"
  unfolding anetSetSendBuffer_def sys_setsockopt_def sink_single_def on_fd_def
  by (auto split: prod.splits verdict.splits option.splits if_splits
      simp: ANET_ERR_def ANET_OK_def message_prefixes_def simp del: append.simps intro!: written)

lemma anetTcpKeepAlive_sink:
  "anetTcpKeepAlive (Some e) fd w = (r, err', w') \<Longrightarrow> sink_single (Some e) r err'"
  unfolding anetTcpKeepAlive_def sys_setsockopt_def sink_single_def on_fd_def
  by (auto split: prod.splits verdict.splits option.splits if_splits
      simp: ANET_ERR_def ANET_OK_def message_prefixes_def simp del: append.simps intro!: written)

lemma anetCreateSocket_sink:
  "anetCreateSocket (Some e) domain w = (r, err', w') \<Longrightarrow> sink_single (Some e) r err'"
  unfolding anetCreateSocket_def sys_socket_def sys_setsockopt_def sink_single_def on_fd_def
  by (auto split: prod.splits verdict.splits option.splits if_splits
      simp: ANET_ERR_def ANET_OK_def message_prefixes_def simp del: append.simps intro!: written)

lemma anetGetaddrinfo_sink:
  "anetGetaddrinfo (Some e) addr service w = (r, err', res, w') \<Longrightarrow> sink_single (Some e) r err'"
  unfolding anetGetaddrinfo_def sys_getaddrinfo_def sink_single_def
  by (auto split: prod.splits resolution.splits if_splits
      simp: ANET_ERR_def ANET_OK_def message_prefixes_def simp del: append.simps intro!: written)

lemma anetListen_sink:
  "anetListen (Some e) s sa len w = (r, err', w') \<Longrightarrow>
     sink_single (Some e) r err' \<and> (r = ANET_OK \<or> r = ANET_ERR)"
  unfolding anetListen_def sys_bind_def sys_listen_def sink_single_def Let_def on_fd_def
  by (auto split: prod.splits verdict.splits option.splits if_splits
      simp: ANET_ERR_def ANET_OK_def message_prefixes_def simp del: append.simps intro!: written)


lemma anetGenericAccept_unfold:
  assumes "sys_accept w s sa len = Some (fd1, sa1, len1, w1)"
  shows "anetGenericAccept err s sa len w =
     (if fd1 = -1 then
        (if errno w1 = EINTR then anetGenericAccept err s sa1 len1 w1
         else Some (fd1, anetSetError err (''accept: '' @ strerror w1 (errno w1)), sa1, len1, w1))
      else Some (fd1, err, sa1, len1, w1))"
  by (subst anetGenericAccept.simps) (simp add: assms del: append.simps)

lemma anetGenericAccept_blocked:
  "sys_accept w s sa len = None \<Longrightarrow> anetGenericAccept err s sa len w = None"
  by (subst anetGenericAccept.simps) simp

lemma anetGenericAccept_sink:
  "anetGenericAccept (Some e) s sa len w = Some (fd, err', sa', len', w') \<Longrightarrow>
     sink_single (Some e) fd err'"
proof (induction "Some e :: string option" s sa len w rule: anetGenericAccept.induct)
  case (1 s sa len w)
  from "1.prems" obtain fd1 sa1 len1 w1 where
    acc: "sys_accept w s sa len = Some (fd1, sa1, len1, w1)"
    by (cases "sys_accept w s sa len") (auto simp: anetGenericAccept_blocked)
  note unf = anetGenericAccept_unfold[OF acc, of "Some e"]
  show ?case
  proof (cases "fd1 = -1")
    case True
    show ?thesis
    proof (cases "errno w1 = EINTR")
      case True
      with \<open>fd1 = -1\<close> unf "1.prems" have "anetGenericAccept (Some e) s sa1 len1 w1 =
          Some (fd, err', sa', len', w')"
        by simp
      with "1.hyps"[OF acc refl refl refl \<open>fd1 = -1\<close> True] show ?thesis by simp
    next
      case False
      with \<open>fd1 = -1\<close> unf "1.prems" have "fd = -1"
        and "err' = anetSetError (Some e) (''accept: '' @ strerror w1 (errno w1))"
        by (simp_all del: append.simps)
      then show ?thesis
        by (simp add: sink_single_def ANET_ERR_def written message_prefixes_def del: append.simps)
    qed
  next
    case False
    with unf "1.prems" have "fd = fd1" and "err' = Some e"
      by simp_all
    with False show ?thesis by (simp add: sink_single_def ANET_ERR_def)
  qed
qed

lemma anetTcpAccept_sink:
  assumes "anetTcpAccept (Some e) s ss w = Some (fd, err', ss', w')"
  shows "sink_single (Some e) fd err'"
proof -
  from assms obtain fd1 len1 where
    "anetGenericAccept (Some e) s ss sizeof_ptr w = Some (fd1, err', ss', len1, w')"
    and "fd = (if fd1 = ANET_ERR then ANET_ERR else fd1)"
    unfolding anetTcpAccept_def by (auto split: option.splits if_splits)
  then show ?thesis using anetGenericAccept_sink by (auto split: if_splits)
qed

subsection \<open>The sink after the loops over the candidates\<close>

lemma connect_loop_sink:
  "anetTcpGenericConnect_loop (Some a) flags ss ps w = (r, err', ss', w') \<Longrightarrow>
     sink_kept_or_one (Some a) err' \<and> (r = ANET_ERR \<and> ps \<noteq> [] \<longrightarrow> one_message err')"
proof (induction ps arbitrary: a w)
  case Nil
  then show ?case by (simp add: sink_kept_or_one_def)
next
  case (Cons p ps)
  obtain s err1 w1 where cs: "anetCreateSocket (Some a) (ai_family p) w = (s, err1, w1)"
    by (cases "anetCreateSocket (Some a) (ai_family p) w") auto
  from anetCreateSocket_sink[OF cs] have s1: "sink_single (Some a) s err1" .
  show ?case
  proof (cases "s = ANET_ERR")
    case True
    with s1 have m1: "one_message err1" by (simp add: sink_single_def)
    then obtain a1 where a1: "err1 = Some a1" using one_message_Some by blast
    from Cons.prems cs True a1
    have "anetTcpGenericConnect_loop (Some a1) flags ss ps w1 = (r, err', ss', w')" by simp
    from Cons.IH[OF this] m1 a1 show ?thesis by (auto simp: sink_kept_or_one_def)
  next
    case False
    with s1 have e1: "err1 = Some a" by (simp add: sink_single_def)
    obtain nb err2 w2 where nb:
      "(if flags AND ANET_CONNECT_NONBLOCK \<noteq> 0 then anetNonBlock (Some a) s w1
        else (ANET_OK, Some a, w1)) = (nb, err2, w2)"
      by (cases "if flags AND ANET_CONNECT_NONBLOCK \<noteq> 0 then anetNonBlock (Some a) s w1
        else (ANET_OK, Some a, w1)") auto
    then have s2: "sink_single (Some a) nb err2 \<and> (nb = ANET_OK \<or> nb = ANET_ERR)"
      using anetNonBlock_sink[of a s w1 nb err2 w2]
      by (auto split: if_splits simp: sink_single_def ANET_OK_def ANET_ERR_def)
    show ?thesis
    proof (cases "nb = ANET_OK")
      case nbfail: False
      with s2 have "one_message err2" by (auto simp: sink_single_def)
      moreover from Cons.prems cs False e1 nb nbfail have "r = ANET_ERR" "err' = err2" by simp_all
      ultimately show ?thesis by (simp add: sink_kept_or_one_def)
    next
      case nbok: True
      with s2 have e2: "err2 = Some a" by (auto simp: sink_single_def ANET_OK_def ANET_ERR_def)
      obtain c w3 where c: "sys_connect w2 s (ai_addr p) (ai_addrlen p) = (c, w3)"
        by (cases "sys_connect w2 s (ai_addr p) (ai_addrlen p)") auto
      show ?thesis
      proof (cases "c \<ge> 0 \<or> (errno w3 = EINPROGRESS \<and> flags AND ANET_CONNECT_NONBLOCK \<noteq> 0)")
        case True
        with Cons.prems cs False e1 nb nbok e2 c have "r = s" "err' = Some a"
          by (auto split: if_splits)
        with False show ?thesis by (simp add: sink_kept_or_one_def)
      next
        case cfail: False
        let ?m = "anetSetError (Some a) (''connect: '' @ strerror w3 (errno w3))"
        have m: "one_message ?m" by (rule written) (simp add: message_prefixes_def)
        then obtain a3 where a3: "?m = Some a3" using one_message_Some by blast
        from Cons.prems cs False e1 nb nbok e2 c cfail
        have "anetTcpGenericConnect_loop ?m flags ss ps (sys_close w3 s) = (r, err', ss', w')"
          by (auto simp del: append.simps split: if_splits)
        with a3 have "anetTcpGenericConnect_loop (Some a3) flags ss ps (sys_close w3 s) = (r, err', ss', w')"
          by simp
        from Cons.IH[OF this] m a3 show ?thesis by (auto simp: sink_kept_or_one_def)
      qed
    qed
  qed
qed


lemma server_loop_sink:
  "anetTcpServer_loop (Some a) ps fds nfds i w = (err', fds', i', w') \<Longrightarrow>
     sink_kept_or_one (Some a) err' \<and> i \<le> i' \<and>
     (i' = i \<and> i < nfds \<and> ps \<noteq> [] \<longrightarrow> one_message err')"
proof (induction ps arbitrary: a fds i w)
  case Nil
  then show ?case by (simp add: sink_kept_or_one_def)
next
  case (Cons p ps)
  show ?case
  proof (cases "i < nfds")
    case False
    with Cons.prems show ?thesis by (simp add: sink_kept_or_one_def)
  next
    case True
    obtain s err1 w1 where cs: "anetCreateSocket (Some a) (ai_family p) w = (s, err1, w1)"
      by (cases "anetCreateSocket (Some a) (ai_family p) w") auto
    from anetCreateSocket_sink[OF cs] have s1: "sink_single (Some a) s err1" .
    show ?thesis
    proof (cases "s = ANET_ERR")
      case serr: True
      with s1 have m1: "one_message err1" by (simp add: sink_single_def)
      then obtain a1 where a1: "err1 = Some a1" using one_message_Some by blast
      from Cons.prems cs True serr a1
      have "anetTcpServer_loop (Some a1) ps fds nfds i w1 = (err', fds', i', w')" by simp
      from Cons.IH[OF this] m1 a1 show ?thesis by (auto simp: sink_kept_or_one_def)
    next
      case sok: False
      with s1 have e1: "err1 = Some a" by (simp add: sink_single_def)
      obtain r err2 w2 where li: "anetListen (Some a) s (ai_addr p) (ai_addrlen p) w1 = (r, err2, w2)"
        by (cases "anetListen (Some a) s (ai_addr p) (ai_addrlen p) w1") auto
      from anetListen_sink[OF li] have s2: "sink_single (Some a) r err2" by simp
      show ?thesis
      proof (cases "r = ANET_ERR")
        case True
        with s2 have m2: "one_message err2" by (simp add: sink_single_def)
        then obtain a2 where a2: "err2 = Some a2" using one_message_Some by blast
        from Cons.prems cs \<open>i < nfds\<close> sok e1 li True a2
        have "anetTcpServer_loop (Some a2) ps fds nfds i w2 = (err', fds', i', w')" by simp
        from Cons.IH[OF this] m2 a2 show ?thesis by (auto simp: sink_kept_or_one_def)
      next
        case False
        with s2 have e2: "err2 = Some a" by (simp add: sink_single_def)
        from Cons.prems cs \<open>i < nfds\<close> sok e1 li False e2
        have "anetTcpServer_loop (Some a) ps (fds[nat i := s]) nfds (i + 1) w2 = (err', fds', i', w')"
          by simp
        from Cons.IH[OF this] show ?thesis by auto
      qed
    qed
  qed
qed

subsection \<open>Calls in a world where no system call fails\<close>

lemma next_verdict_all_succeed:
  assumes "all_succeed w"
  shows "\<exists>w1. next_verdict w = (Succeeds, w1) \<and> all_succeed w1 \<and> fdtab w1 = fdtab w"
  using assms by (cases "script w") (auto simp: next_verdict_def all_succeed_def)

lemma map_of_upd_sock:
  "map_of (fdtab (upd_sock fd f w)) k = (if k = fd then map_option f (map_of (fdtab w) k)
                                          else map_of (fdtab w) k)"
proof -
  have "map_of (map (\<lambda>(k, s). if k = fd then (k, f s) else (k, s)) xs) k =
          (if k = fd then map_option f (map_of xs k) else map_of xs k)" for xs
    by (induction xs) auto
  then show ?thesis by (simp add: upd_sock_def)
qed

lemma all_succeed_upd_sock [simp]: "all_succeed (upd_sock fd f w) = all_succeed w"
  by (simp add: all_succeed_def upd_sock_def)

lemma anetCreateSocket_all_succeed:
  assumes "all_succeed w"
  shows "\<exists>s w1. anetCreateSocket err domain w = (s, err, w1) \<and> s \<noteq> ANET_ERR \<and> all_succeed w1 \<and>
           map_of (fdtab w1) s \<noteq> None"
proof -
  from next_verdict_all_succeed[OF assms] obtain wa where
    a: "next_verdict w = (Succeeds, wa)" "all_succeed wa" by blast
  let ?s = "lowest_free (open_fds wa)"
  let ?wb = "wa\<lparr>fdtab := (?s, new_sock domain) # fdtab wa\<rparr>"
  have sock: "sys_socket w domain = (?s, ?wb)" by (simp add: sys_socket_def a)
  have "all_succeed ?wb" using a(2) by (simp add: all_succeed_def)
  from next_verdict_all_succeed[OF this] obtain wc where
    c: "next_verdict ?wb = (Succeeds, wc)" "all_succeed wc" "fdtab wc = fdtab ?wb" by blast
  have "sys_setsockopt ?wb ?s SO_REUSEADDR 1 =
          (0, upd_sock ?s (\<lambda>s. s\<lparr>so_opts := (SO_REUSEADDR, 1) # so_opts s\<rparr>) wc)"
    by (simp add: sys_setsockopt_def on_fd_def c)
  with sock have "anetCreateSocket err domain w =
      (?s, err, upd_sock ?s (\<lambda>s. s\<lparr>so_opts := (SO_REUSEADDR, 1) # so_opts s\<rparr>) wc)"
    by (simp add: anetCreateSocket_def)
  moreover have "map_of (fdtab (upd_sock ?s (\<lambda>s. s\<lparr>so_opts := (SO_REUSEADDR, 1) # so_opts s\<rparr>) wc)) ?s \<noteq> None"
    by (simp add: map_of_upd_sock c)
  ultimately show ?thesis using c(2) by (auto simp: ANET_ERR_def)
qed

lemma anetNonBlock_all_succeed:
  assumes "all_succeed w" and "map_of (fdtab w) fd \<noteq> None"
  shows "\<exists>w1. anetNonBlock err fd w = (ANET_OK, err, w1) \<and> all_succeed w1 \<and>
           map_of (fdtab w1) fd \<noteq> None"
proof -
  from assms(2) obtain sk where sk: "map_of (fdtab w) fd = Some sk" by blast
  from next_verdict_all_succeed[OF assms(1)] obtain wa where
    a: "next_verdict w = (Succeeds, wa)" "all_succeed wa" "fdtab wa = fdtab w" by blast
  have g: "sys_fcntl_getfl w fd = (int (so_flags sk), wa)"
    by (simp add: sys_fcntl_getfl_def on_fd_def sk a)
  from next_verdict_all_succeed[OF a(2)] obtain wb where
    b: "next_verdict wa = (Succeeds, wb)" "all_succeed wb" "fdtab wb = fdtab wa" by blast
  have "sys_fcntl_setfl wa fd (int (so_flags sk) OR O_NONBLOCK) =
          (0, upd_sock fd (\<lambda>s. s\<lparr>so_flags := nat (int (so_flags sk) OR O_NONBLOCK)\<rparr>) wb)"
    by (simp add: sys_fcntl_setfl_def on_fd_def sk a b)
  with g have "anetNonBlock err fd w =
      (ANET_OK, err, upd_sock fd (\<lambda>s. s\<lparr>so_flags := nat (int (so_flags sk) OR O_NONBLOCK)\<rparr>) wb)"
    by (simp add: anetNonBlock_def)
  then show ?thesis using b sk a(3) by (simp add: map_of_upd_sock)
qed

lemma sys_connect_all_succeed:
  assumes "all_succeed w" and "map_of (fdtab w) fd \<noteq> None"
  shows "\<exists>w1. sys_connect w fd sa len = (0, w1)"
proof -
  from assms(2) obtain sk where sk: "map_of (fdtab w) fd = Some sk" by blast
  from next_verdict_all_succeed[OF assms(1)] obtain wa where
    a: "next_verdict w = (Succeeds, wa)" by blast
  show ?thesis by (simp add: sys_connect_def sk a)
qed

lemma connect_loop_all_succeed:
  assumes "all_succeed w"
  shows "\<exists>r ss' w'. anetTcpGenericConnect_loop err flags ss ps w = (r, err, ss', w')"
proof (cases ps)
  case Nil
  then show ?thesis by simp
next
  case (Cons p ps')
  from anetCreateSocket_all_succeed[OF assms, of err "ai_family p"] obtain s w1 where
    cs: "anetCreateSocket err (ai_family p) w = (s, err, w1)" "s \<noteq> ANET_ERR" "all_succeed w1"
      "map_of (fdtab w1) s \<noteq> None" by blast
  obtain w2 where nb: "(if flags AND ANET_CONNECT_NONBLOCK \<noteq> 0 then anetNonBlock err s w1
        else (ANET_OK, err, w1)) = (ANET_OK, err, w2)" and w2: "all_succeed w2" "map_of (fdtab w2) s \<noteq> None"
    using anetNonBlock_all_succeed[OF cs(3,4), of err] cs(3,4) by (cases "flags AND ANET_CONNECT_NONBLOCK \<noteq> 0") auto
  from sys_connect_all_succeed[OF w2] obtain w3 where
    c: "sys_connect w2 s (ai_addr p) (ai_addrlen p) = (0, w3)" by blast
  show ?thesis using Cons cs nb c by simp
qed

lemma anetListen_all_succeed:
  assumes "all_succeed w" and "map_of (fdtab w) s \<noteq> None"
  shows "\<exists>w1. anetListen err s sa len w = (ANET_OK, err, w1) \<and> all_succeed w1"
proof -
  define w0 where "w0 = (if sa_family sa = AF_INET6 then snd (sys_setsockopt w s IPV6_V6ONLY 1) else w)"
  have w0: "all_succeed w0 \<and> map_of (fdtab w0) s \<noteq> None"
  proof (cases "sa_family sa = AF_INET6")
    case False
    with assms show ?thesis by (simp add: w0_def)
  next
    case True
    from assms(2) obtain sk where sk: "map_of (fdtab w) s = Some sk" by blast
    from next_verdict_all_succeed[OF assms(1)] obtain wa where
      a: "next_verdict w = (Succeeds, wa)" "all_succeed wa" "fdtab wa = fdtab w" by blast
    have "w0 = upd_sock s (\<lambda>s. s\<lparr>so_opts := (IPV6_V6ONLY, 1) # so_opts s\<rparr>) wa"
      by (simp add: w0_def True sys_setsockopt_def on_fd_def sk a)
    then show ?thesis using a sk by (simp add: map_of_upd_sock)
  qed
  then obtain sk where sk: "map_of (fdtab w0) s = Some sk" by blast
  from next_verdict_all_succeed[of w0] w0 obtain wa where
    a: "next_verdict w0 = (Succeeds, wa)" "all_succeed wa" "fdtab wa = fdtab w0" by blast
  let ?wb = "upd_sock s (\<lambda>s. s\<lparr>so_bound := Some (take len sa)\<rparr>) wa"
  have b: "sys_bind w0 s sa len = (0, ?wb)" by (simp add: sys_bind_def on_fd_def sk a)
  have sb: "map_of (fdtab ?wb) s \<noteq> None" and ab: "all_succeed ?wb"
    using a sk by (simp_all add: map_of_upd_sock)
  then obtain sk' where sk': "map_of (fdtab ?wb) s = Some sk'" by blast
  from next_verdict_all_succeed[OF ab] obtain wc where
    c: "next_verdict ?wb = (Succeeds, wc)" "all_succeed wc" by blast
  have l: "sys_listen ?wb s 511 = (0, upd_sock s (\<lambda>s. s\<lparr>so_backlog := Some 511\<rparr>) wc)"
    by (simp add: sys_listen_def on_fd_def sk' c)
  have "anetListen err s sa len w = (ANET_OK, err, upd_sock s (\<lambda>s. s\<lparr>so_backlog := Some 511\<rparr>) wc)"
    unfolding anetListen_def Let_def w0_def[symmetric] by (simp add: b l)
  then show ?thesis using c(2) by simp
qed

lemma server_loop_all_succeed:
  "all_succeed w \<Longrightarrow> \<exists>fds' i' w'. anetTcpServer_loop err ps fds nfds i w = (err, fds', i', w')"
proof (induction ps arbitrary: fds i w)
  case Nil
  then show ?case by simp
next
  case (Cons p ps)
  show ?case
  proof (cases "i < nfds")
    case False
    then show ?thesis by simp
  next
    case True
    from anetCreateSocket_all_succeed[OF Cons.prems, of err "ai_family p"] obtain s w1 where
      cs: "anetCreateSocket err (ai_family p) w = (s, err, w1)" "s \<noteq> ANET_ERR" "all_succeed w1"
        "map_of (fdtab w1) s \<noteq> None" by blast
    from anetListen_all_succeed[OF cs(3,4), of err "ai_addr p" "ai_addrlen p"] obtain w2 where
      li: "anetListen err s (ai_addr p) (ai_addrlen p) w1 = (ANET_OK, err, w2)" "all_succeed w2"
      by blast
    from Cons.IH[OF li(2), of "fds[nat i := s]" "i + 1"] obtain fds' i' w' where
      "anetTcpServer_loop err ps (fds[nat i := s]) nfds (i + 1) w2 = (err, fds', i', w')" by blast
    with True cs li show ?thesis by (simp add: ANET_OK_def ANET_ERR_def)
  qed
qed

subsection \<open>A candidate whose connect fails\<close>

lemma connect_loop_first_fails:
  assumes scr: "script w = Succeeds # Succeeds # Fails e' # vs"
    and flags: "flags AND ANET_CONNECT_NONBLOCK = 0"
    and run: "anetTcpGenericConnect_loop (Some a) flags ss (p # ps) w = (r, err', ss', w')"
  shows "one_message err'"
proof -
  let ?s = "lowest_free (open_fds w)"
  let ?wa = "w\<lparr>script := Succeeds # Fails e' # vs, fdtab := (?s, new_sock (ai_family p)) # fdtab w\<rparr>"
  have sock: "sys_socket w (ai_family p) = (?s, ?wa)"
    by (simp add: sys_socket_def next_verdict_def scr open_fds_def)
  let ?w1 = "upd_sock ?s (\<lambda>s. s\<lparr>so_opts := (SO_REUSEADDR, 1) # so_opts s\<rparr>) (?wa\<lparr>script := Fails e' # vs\<rparr>)"
  have "sys_setsockopt ?wa ?s SO_REUSEADDR 1 = (0, ?w1)"
    by (simp add: sys_setsockopt_def on_fd_def next_verdict_def)
  with sock have cs: "anetCreateSocket (Some a) (ai_family p) w = (?s, Some a, ?w1)"
    by (simp add: anetCreateSocket_def)
  have tab: "map_of (fdtab ?w1) ?s \<noteq> None" by (simp add: map_of_upd_sock)
  have scr1: "script ?w1 = Fails e' # vs" by (simp add: upd_sock_def)
  obtain w3 where c: "sys_connect ?w1 ?s (ai_addr p) (ai_addrlen p) = (-1, w3)"
    using tab scr1 by (auto simp: sys_connect_def next_verdict_def)
  let ?m = "anetSetError (Some a) (''connect: '' @ strerror w3 (errno w3))"
  have m: "one_message ?m" by (rule written) (simp add: message_prefixes_def)
  then obtain a3 where a3: "?m = Some a3" using one_message_Some by blast
  have "anetTcpGenericConnect_loop (Some a) flags ss (p # ps) w =
          anetTcpGenericConnect_loop ?m flags ss ps (sys_close w3 ?s)"
    using cs c flags by (simp add: ANET_ERR_def ANET_OK_def del: append.simps)
  with run a3 have "anetTcpGenericConnect_loop (Some a3) flags ss ps (sys_close w3 ?s) = (r, err', ss', w')"
    by simp
  from connect_loop_sink[OF this] m a3 show ?thesis by (auto simp: sink_kept_or_one_def)
qed

subsection \<open>What the script answers\<close>

lemma answer_drop: "answer (drop k vs) n = answer vs (k + n)"
  by (auto simp: answer_def)

lemma next_verdict_answer:
  "next_verdict w = (v, w1) \<Longrightarrow>
     answer (script w) 0 = v \<and> script w1 = drop 1 (script w) \<and> fdtab w1 = fdtab w"
  by (cases "script w") (auto simp: next_verdict_def answer_def)

lemma anetCreateSocket_answers:
  assumes "anetCreateSocket err af w = (s, err1, w1)"
  shows "(s \<noteq> ANET_ERR \<longleftrightarrow> answer (script w) 0 = Succeeds \<and> answer (script w) 1 = Succeeds) \<and>
         (s \<noteq> ANET_ERR \<longrightarrow> script w1 = drop 2 (script w) \<and> map_of (fdtab w1) s \<noteq> None)"
proof -
  obtain va wa where a: "next_verdict w = (va, wa)" by (cases "next_verdict w")
  note A = next_verdict_answer[OF a]
  show ?thesis
  proof (cases va)
    case (Fails e)
    with a assms have "s = ANET_ERR" by (simp add: anetCreateSocket_def sys_socket_def ANET_ERR_def)
    with A Fails show ?thesis by simp
  next
    case Succeeds
    let ?s = "lowest_free (open_fds wa)"
    let ?wb = "wa\<lparr>fdtab := (?s, new_sock af) # fdtab wa\<rparr>"
    have sock: "sys_socket w af = (?s, ?wb)" by (simp add: sys_socket_def a Succeeds)
    obtain vc wc where c: "next_verdict ?wb = (vc, wc)" by (cases "next_verdict ?wb")
    note C = next_verdict_answer[OF c]
    have vc: "answer (script w) 1 = vc" using A C by (simp add: answer_drop)
    have scr: "script wc = drop 2 (script w)" using A C by (simp add: numeral_2_eq_2)
    show ?thesis
    proof (cases vc)
      case (Fails e)
      with sock c assms have "s = ANET_ERR"
        by (simp add: anetCreateSocket_def sys_setsockopt_def on_fd_def ANET_ERR_def)
      with vc Fails show ?thesis by simp
    next
      case vcs: Succeeds
      let ?w1 = "upd_sock ?s (\<lambda>s. s\<lparr>so_opts := (SO_REUSEADDR, 1) # so_opts s\<rparr>) wc"
      have "sys_setsockopt ?wb ?s SO_REUSEADDR 1 = (0, ?w1)"
        by (simp add: sys_setsockopt_def on_fd_def c vcs)
      with sock have "anetCreateSocket err af w = (?s, err, ?w1)"
        by (simp add: anetCreateSocket_def)
      with assms have res: "s = ?s" "w1 = ?w1" by auto
      have "map_of (fdtab ?w1) ?s \<noteq> None" using C by (simp add: map_of_upd_sock)
      moreover have "script ?w1 = drop 2 (script w)" using scr by (simp add: upd_sock_def)
      ultimately show ?thesis
        using res A Succeeds vc vcs by (simp add: ANET_ERR_def)
    qed
  qed
qed

lemma anetNonBlock_answers:
  assumes "anetNonBlock err fd w = (r, err1, w1)" and "map_of (fdtab w) fd \<noteq> None"
  shows "(r = ANET_OK \<longleftrightarrow> answer (script w) 0 = Succeeds \<and> answer (script w) 1 = Succeeds) \<and>
         (r = ANET_OK \<longrightarrow> script w1 = drop 2 (script w) \<and> map_of (fdtab w1) fd \<noteq> None) \<and>
         (r \<noteq> ANET_OK \<longrightarrow> r = ANET_ERR)"
proof -
  from assms(2) obtain sk where sk: "map_of (fdtab w) fd = Some sk" by blast
  obtain va wa where a: "next_verdict w = (va, wa)" by (cases "next_verdict w")
  note A = next_verdict_answer[OF a]
  show ?thesis
  proof (cases va)
    case (Fails e)
    with a assms sk have "r = ANET_ERR"
      by (simp add: anetNonBlock_def sys_fcntl_getfl_def on_fd_def)
    with A Fails show ?thesis by (simp add: ANET_ERR_def ANET_OK_def)
  next
    case Succeeds
    have g: "sys_fcntl_getfl w fd = (int (so_flags sk), wa)"
      by (simp add: sys_fcntl_getfl_def on_fd_def sk a Succeeds)
    obtain vb wb where b: "next_verdict wa = (vb, wb)" by (cases "next_verdict wa")
    note B = next_verdict_answer[OF b]
    have vb: "answer (script w) 1 = vb" using A B by (simp add: answer_drop)
    have ska: "map_of (fdtab wa) fd = Some sk" using A sk by simp
    show ?thesis
    proof (cases vb)
      case (Fails e)
      with g b assms ska have "r = ANET_ERR"
        by (simp add: anetNonBlock_def sys_fcntl_setfl_def on_fd_def)
      with vb Fails show ?thesis by (simp add: ANET_ERR_def ANET_OK_def)
    next
      case vbs: Succeeds
      let ?w1 = "upd_sock fd (\<lambda>s. s\<lparr>so_flags := nat (int (so_flags sk) OR O_NONBLOCK)\<rparr>) wb"
      have "sys_fcntl_setfl wa fd (int (so_flags sk) OR O_NONBLOCK) = (0, ?w1)"
        by (simp add: sys_fcntl_setfl_def on_fd_def ska b vbs)
      with g have "anetNonBlock err fd w = (ANET_OK, err, ?w1)" by (simp add: anetNonBlock_def)
      with assms(1) have res: "r = ANET_OK" "w1 = ?w1" by auto
      have "map_of (fdtab ?w1) fd \<noteq> None" using B ska by (simp add: map_of_upd_sock)
      moreover have "script ?w1 = drop 2 (script w)"
        using A B by (simp add: upd_sock_def numeral_2_eq_2)
      ultimately show ?thesis using res A Succeeds vb vbs by simp
    qed
  qed
qed

lemma sys_connect_answers:
  assumes "sys_connect w fd sa len = (c, w1)" and "map_of (fdtab w) fd \<noteq> None"
  shows "(answer (script w) 0 = Succeeds \<longrightarrow> c = 0) \<and>
         (\<forall>e. answer (script w) 0 = Fails e \<longrightarrow> c = -1 \<and> errno w1 = e)"
proof -
  from assms(2) obtain sk where sk: "map_of (fdtab w) fd = Some sk" by blast
  obtain va wa where a: "next_verdict w = (va, wa)" by (cases "next_verdict w")
  note A = next_verdict_answer[OF a]
  show ?thesis
    using assms(1) A by (cases va) (auto simp: sys_connect_def sk a)
qed


lemma connect_loop_first:
  assumes run: "anetTcpGenericConnect_loop (Some a) flags ss (p # ps) w = (r, err', ss', w')"
  shows "if first_candidate_connects flags (script w) then r \<noteq> ANET_ERR \<and> err' = Some a
         else one_message err'"
proof -
  obtain s err1 w1 where cs: "anetCreateSocket (Some a) (ai_family p) w = (s, err1, w1)"
    by (cases "anetCreateSocket (Some a) (ai_family p) w") auto
  from anetCreateSocket_sink[OF cs] have s1: "sink_single (Some a) s err1" .
  note CA = anetCreateSocket_answers[OF cs]
  have later: "one_message err'"
    if m: "one_message m" and go: "anetTcpGenericConnect_loop m flags ss ps v = (r, err', ss', w')"
    for m v
  proof -
    from m obtain t where t: "m = Some t" using one_message_Some by blast
    from connect_loop_sink[OF go[unfolded t]] m t show ?thesis
      by (auto simp: sink_kept_or_one_def)
  qed
  show ?thesis
  proof (cases "s = ANET_ERR")
    case True
    with s1 have "one_message err1" by (simp add: sink_single_def)
    moreover from run cs True have "anetTcpGenericConnect_loop err1 flags ss ps w1 = (r, err', ss', w')"
      by simp
    ultimately have "one_message err'" by (rule later)
    moreover from True CA have "\<not> first_candidate_connects flags (script w)"
      by (auto simp: first_candidate_connects_def)
    ultimately show ?thesis by simp
  next
    case False
    with s1 have e1: "err1 = Some a" by (simp add: sink_single_def)
    from False CA have a01: "answer (script w) 0 = Succeeds" "answer (script w) 1 = Succeeds"
      and scr1: "script w1 = drop 2 (script w)" and open1: "map_of (fdtab w1) s \<noteq> None"
      by simp_all
    obtain nb err2 w2 where nb:
      "(if flags AND ANET_CONNECT_NONBLOCK \<noteq> 0 then anetNonBlock (Some a) s w1
        else (ANET_OK, Some a, w1)) = (nb, err2, w2)"
      by (cases "if flags AND ANET_CONNECT_NONBLOCK \<noteq> 0 then anetNonBlock (Some a) s w1
        else (ANET_OK, Some a, w1)") auto
    define k where "k = (if flags AND ANET_CONNECT_NONBLOCK \<noteq> 0 then 4 else 2 :: nat)"
    have nbfacts: "sink_single (Some a) nb err2 \<and> (nb = ANET_OK \<or> nb = ANET_ERR) \<and>
        (nb = ANET_OK \<longleftrightarrow>
          (flags AND ANET_CONNECT_NONBLOCK \<noteq> 0 \<longrightarrow>
             answer (script w) 2 = Succeeds \<and> answer (script w) 3 = Succeeds)) \<and>
        (nb = ANET_OK \<longrightarrow> script w2 = drop k (script w) \<and> map_of (fdtab w2) s \<noteq> None)"
    proof (cases "flags AND ANET_CONNECT_NONBLOCK \<noteq> 0")
      case True
      with nb have n: "anetNonBlock (Some a) s w1 = (nb, err2, w2)" by simp
      from anetNonBlock_sink[OF n] anetNonBlock_answers[OF n open1] True scr1
      show ?thesis by (auto simp: answer_drop k_def)
    next
      case False
      with nb scr1 open1 show ?thesis
        by (auto simp: sink_single_def k_def ANET_OK_def ANET_ERR_def)
    qed
    show ?thesis
    proof (cases "nb = ANET_OK")
      case nbfail: False
      with nbfacts have "one_message err2" by (auto simp: sink_single_def)
      moreover from run cs False e1 nb nbfail have "err' = err2" by simp
      moreover from nbfail nbfacts have "\<not> first_candidate_connects flags (script w)"
        by (auto simp: first_candidate_connects_def)
      ultimately show ?thesis by simp
    next
      case nbok: True
      with nbfacts have e2: "err2 = Some a" and scr2: "script w2 = drop k (script w)"
        and open2: "map_of (fdtab w2) s \<noteq> None"
        and a23: "flags AND ANET_CONNECT_NONBLOCK \<noteq> 0 \<longrightarrow>
             answer (script w) 2 = Succeeds \<and> answer (script w) 3 = Succeeds"
        by (auto simp: sink_single_def ANET_OK_def ANET_ERR_def)
      obtain c w3 where c: "sys_connect w2 s (ai_addr p) (ai_addrlen p) = (c, w3)"
        by (cases "sys_connect w2 s (ai_addr p) (ai_addrlen p)") auto
      from sys_connect_answers[OF c open2] scr2
      have ca: "answer (script w) k = Succeeds \<longrightarrow> c = 0"
        "\<forall>e. answer (script w) k = Fails e \<longrightarrow> c = -1 \<and> errno w3 = e"
        by (simp_all add: answer_drop)
      have fcc: "first_candidate_connects flags (script w) \<longleftrightarrow>
          answer (script w) k = Succeeds \<or>
          (answer (script w) k = Fails EINPROGRESS \<and> flags AND ANET_CONNECT_NONBLOCK \<noteq> 0)"
        using a01 a23 by (auto simp: first_candidate_connects_def k_def)
      show ?thesis
      proof (cases "c \<ge> 0 \<or> (errno w3 = EINPROGRESS \<and> flags AND ANET_CONNECT_NONBLOCK \<noteq> 0)")
        case True
        with run cs False e1 nb nbok e2 c have res: "r = s" "err' = Some a"
          by (auto split: if_splits)
        from True ca have "first_candidate_connects flags (script w)"
          unfolding fcc by (cases "answer (script w) k") auto
        with res False show ?thesis by simp
      next
        case cfail: False
        let ?m = "anetSetError (Some a) (''connect: '' @ strerror w3 (errno w3))"
        have m: "one_message ?m" by (rule written) (simp add: message_prefixes_def)
        from run cs False e1 nb nbok e2 c cfail
        have "anetTcpGenericConnect_loop ?m flags ss ps (sys_close w3 s) = (r, err', ss', w')"
          by (auto simp del: append.simps split: if_splits)
        with m have "one_message err'" by (rule later)
        moreover from cfail ca have "\<not> first_candidate_connects flags (script w)"
          unfolding fcc by (cases "answer (script w) k") auto
        ultimately show ?thesis by simp
      qed
    qed
  qed
qed


lemma anetListen_answers:
  assumes run: "anetListen err s sa len w = (r, err1, w1)" and op: "map_of (fdtab w) s \<noteq> None"
  shows "(r \<noteq> ANET_ERR \<longleftrightarrow>
            (if sa_family sa = AF_INET6
             then answer (script w) 1 = Succeeds \<and> answer (script w) 2 = Succeeds
             else answer (script w) 0 = Succeeds \<and> answer (script w) 1 = Succeeds)) \<and>
         (r \<noteq> ANET_ERR \<longrightarrow> script w1 = drop (if sa_family sa = AF_INET6 then 3 else 2) (script w))"
proof -
  define w0 where "w0 = (if sa_family sa = AF_INET6 then snd (sys_setsockopt w s IPV6_V6ONLY 1) else w)"
  define k where "k = (if sa_family sa = AF_INET6 then 1 else 0 :: nat)"
  have w0: "map_of (fdtab w0) s \<noteq> None \<and> script w0 = drop k (script w)"
  proof (cases "sa_family sa = AF_INET6")
    case False
    with op show ?thesis by (simp add: w0_def k_def)
  next
    case True
    from op obtain sk where sk: "map_of (fdtab w) s = Some sk" by blast
    obtain va wa where a: "next_verdict w = (va, wa)" by (cases "next_verdict w")
    note A = next_verdict_answer[OF a]
    have "map_of (fdtab w0) s \<noteq> None"
      using A sk True
      by (cases va) (simp_all add: w0_def sys_setsockopt_def on_fd_def a map_of_upd_sock)
    moreover have "script w0 = drop k (script w)"
      using A sk True
      by (cases va) (simp_all add: w0_def k_def sys_setsockopt_def on_fd_def a upd_sock_def)
    ultimately show ?thesis by simp
  qed
  then obtain sk where sk: "map_of (fdtab w0) s = Some sk" by blast
  obtain va wa where a: "next_verdict w0 = (va, wa)" by (cases "next_verdict w0")
  note A = next_verdict_answer[OF a]
  have a0: "answer (script w) k = va" using A w0 by (simp add: answer_drop)
  have unfold: "anetListen err s sa len w =
      (case sys_bind w0 s sa len of
         (b, w1) \<Rightarrow>
           if b = -1 then
             (ANET_ERR, anetSetError err (''bind: '' @ strerror w1 (errno w1)), sys_close w1 s)
           else
             (case sys_listen w1 s 511 of
                (l, w2) \<Rightarrow>
                  if l = -1 then
                    (ANET_ERR, anetSetError err (''listen: '' @ strerror w2 (errno w2)),
                     sys_close w2 s)
                  else (ANET_OK, err, w2)))"
    unfolding anetListen_def Let_def w0_def[symmetric] ..
  have target: "(if sa_family sa = AF_INET6
             then answer (script w) 1 = Succeeds \<and> answer (script w) 2 = Succeeds
             else answer (script w) 0 = Succeeds \<and> answer (script w) 1 = Succeeds) \<longleftrightarrow>
        answer (script w) k = Succeeds \<and> answer (script w) (Suc k) = Succeeds"
    by (simp add: k_def numeral_2_eq_2)
  have dropk: "drop (if sa_family sa = AF_INET6 then 3 else 2) (script w) = drop (Suc (Suc k)) (script w)"
    by (simp add: k_def numeral_2_eq_2 numeral_3_eq_3)
  show ?thesis
  proof (cases va)
    case (Fails e)
    have "sys_bind w0 s sa len = (-1, wa\<lparr>errno := e\<rparr>)"
      by (simp add: sys_bind_def on_fd_def sk a Fails)
    with run have "r = ANET_ERR" unfolding unfold by (auto simp del: append.simps)
    with a0 Fails show ?thesis unfolding target by simp
  next
    case Succeeds
    let ?wb = "upd_sock s (\<lambda>s. s\<lparr>so_bound := Some (take len sa)\<rparr>) wa"
    have b: "sys_bind w0 s sa len = (0, ?wb)" by (simp add: sys_bind_def on_fd_def sk a Succeeds)
    have skb: "map_of (fdtab ?wb) s \<noteq> None" using A sk by (simp add: map_of_upd_sock)
    then obtain sk' where sk': "map_of (fdtab ?wb) s = Some sk'" by blast
    obtain vc wc where c: "next_verdict ?wb = (vc, wc)" by (cases "next_verdict ?wb")
    note C = next_verdict_answer[OF c]
    have scrb: "script ?wb = drop (Suc k) (script w)" using A w0 by (simp add: upd_sock_def)
    have a1: "answer (script w) (Suc k) = vc" using C scrb by (simp add: answer_drop)
    show ?thesis
    proof (cases vc)
      case (Fails e)
      have "sys_listen ?wb s 511 = (-1, wc\<lparr>errno := e\<rparr>)"
        by (simp add: sys_listen_def on_fd_def sk' c Fails)
      with run b have "r = ANET_ERR" unfolding unfold by (auto simp del: append.simps)
      with a1 Fails show ?thesis unfolding target by simp
    next
      case vcs: Succeeds
      let ?w1 = "upd_sock s (\<lambda>s. s\<lparr>so_backlog := Some 511\<rparr>) wc"
      have "sys_listen ?wb s 511 = (0, ?w1)" by (simp add: sys_listen_def on_fd_def sk' c vcs)
      with b have "anetListen err s sa len w = (ANET_OK, err, ?w1)" unfolding unfold by simp
      with run have res: "r = ANET_OK" "w1 = ?w1" by auto
      have "script ?w1 = drop (Suc (Suc k)) (script w)" using C scrb by (simp add: upd_sock_def)
      with res a0 a1 Succeeds vcs show ?thesis
        unfolding target dropk by (simp add: ANET_OK_def ANET_ERR_def)
    qed
  qed
qed

lemma server_loop_quiet:
  "anetTcpServer_loop (Some a) ps fds nfds i w = (err', fds', i', w') \<Longrightarrow>
     (if every_candidate_listens ps nfds i (script w) then err' = Some a else one_message err')"
proof (induction ps arbitrary: fds i w)
  case Nil
  then show ?case by simp
next
  case (Cons p ps)
  have later: "one_message err'"
    if m: "one_message m" and go: "anetTcpServer_loop m ps fds0 nfds j v = (err', fds', i', w')"
    for m fds0 j v
  proof -
    from m obtain t where t: "m = Some t" using one_message_Some by blast
    from server_loop_sink[OF go[unfolded t]] m t show ?thesis
      by (auto simp: sink_kept_or_one_def)
  qed
  show ?case
  proof (cases "i < nfds")
    case False
    with Cons.prems show ?thesis by simp
  next
    case True
    obtain s err1 w1 where cs: "anetCreateSocket (Some a) (ai_family p) w = (s, err1, w1)"
      by (cases "anetCreateSocket (Some a) (ai_family p) w") auto
    from anetCreateSocket_sink[OF cs] have s1: "sink_single (Some a) s err1" .
    note CA = anetCreateSocket_answers[OF cs]
    show ?thesis
    proof (cases "s = ANET_ERR")
      case serr: True
      with s1 have "one_message err1" by (simp add: sink_single_def)
      moreover from Cons.prems cs True serr
      have "anetTcpServer_loop err1 ps fds nfds i w1 = (err', fds', i', w')" by simp
      ultimately have "one_message err'" by (rule later)
      moreover from serr CA True have "\<not> every_candidate_listens (p # ps) nfds i (script w)"
        by auto
      ultimately show ?thesis by simp
    next
      case sok: False
      with s1 have e1: "err1 = Some a" by (simp add: sink_single_def)
      from sok CA have a01: "answer (script w) 0 = Succeeds" "answer (script w) 1 = Succeeds"
        and scr1: "script w1 = drop 2 (script w)" and open1: "map_of (fdtab w1) s \<noteq> None"
        by simp_all
      obtain r err2 w2 where li: "anetListen (Some a) s (ai_addr p) (ai_addrlen p) w1 = (r, err2, w2)"
        by (cases "anetListen (Some a) s (ai_addr p) (ai_addrlen p) w1") auto
      from anetListen_sink[OF li] have s2: "sink_single (Some a) r err2" by simp
      note LA = anetListen_answers[OF li open1]
      show ?thesis
      proof (cases "r = ANET_ERR")
        case rerr: True
        with s2 have "one_message err2" by (simp add: sink_single_def)
        moreover from Cons.prems cs True sok e1 li rerr
        have "anetTcpServer_loop err2 ps fds nfds i w2 = (err', fds', i', w')" by simp
        ultimately have "one_message err'" by (rule later)
        moreover from rerr LA scr1 True have "\<not> every_candidate_listens (p # ps) nfds i (script w)"
          by (auto simp: answer_drop split: if_splits)
        ultimately show ?thesis by simp
      next
        case rok: False
        with s2 have e2: "err2 = Some a" by (simp add: sink_single_def)
        from Cons.prems cs True sok e1 li rok e2
        have go: "anetTcpServer_loop (Some a) ps (fds[nat i := s]) nfds (i + 1) w2 = (err', fds', i', w')"
          by simp
        from rok LA scr1 have scr2: "script w2 = drop (if sa_family (ai_addr p) = AF_INET6 then 5 else 4) (script w)"
          and ans: "if sa_family (ai_addr p) = AF_INET6
             then answer (script w) 3 = Succeeds \<and> answer (script w) 4 = Succeeds
             else answer (script w) 2 = Succeeds \<and> answer (script w) 3 = Succeeds"
          by (auto simp: answer_drop split: if_splits)
        from True a01 ans scr2
        have "every_candidate_listens (p # ps) nfds i (script w) \<longleftrightarrow>
            every_candidate_listens ps nfds (i + 1) (script w2)"
          by (auto split: if_splits)
        with Cons.IH[OF go] show ?thesis by simp
      qed
    qed
  qed
qed

subsection \<open>The sink after connect and server calls\<close>

lemma all_succeed_gai [simp]: "all_succeed (w\<lparr>gai_live := n\<rparr>) = all_succeed w"
  by (simp add: all_succeed_def)

lemma gai_code_nonzero [simp]: "gai_code g \<noteq> 0"
  by (cases g) simp_all

lemma anetTcpGenericConnect_unresolved:
  "resolver w addr service 0 = Unresolved g \<Longrightarrow>
     anetTcpGenericConnect err addr service flags ss w =
       (ANET_ERR,
        anetSetError err (''can't resolve '' @ fmt_s addr @ '': '' @ gai_strerror w (gai_code g)),
        ss, w)"
  by (simp add: anetTcpGenericConnect_def sys_getaddrinfo_def del: append.simps)

lemma anetTcpGenericConnect_resolved:
  "resolver w addr service 0 = Resolved cs \<Longrightarrow>
     anetTcpGenericConnect err addr service flags ss w =
       anetTcpGenericConnect_loop err flags ss cs (w\<lparr>gai_live := Suc (gai_live w)\<rparr>)"
  by (simp add: anetTcpGenericConnect_def sys_getaddrinfo_def)

lemma anetTcpServer_unresolved:
  "resolver w bindaddr service AI_PASSIVE = Unresolved g \<Longrightarrow>
     anetTcpServer err service bindaddr fds nfds w =
       (ANET_ERR,
        anetSetError err (''can't resolve '' @ fmt_s bindaddr @ '': '' @ gai_strerror w (gai_code g)),
        fds, w)"
  by (simp add: anetTcpServer_def sys_getaddrinfo_def del: append.simps)

lemma anetTcpServer_resolved:
  "resolver w bindaddr service AI_PASSIVE = Resolved cs \<Longrightarrow>
     anetTcpServer err service bindaddr fds nfds w =
       (case anetTcpServer_loop err cs fds nfds 0 (w\<lparr>gai_live := Suc (gai_live w)\<rparr>) of
          (err', fds', i, w2) \<Rightarrow>
            ((if i > 0 then i else ANET_ERR), err', fds', sys_freeaddrinfo w2))"
  by (simp add: anetTcpServer_def sys_getaddrinfo_def)

lemma anetTcpGenericConnect_sink:
  assumes "anetTcpGenericConnect (Some e) addr service flags ss w = (r, err', ss', w')"
  shows "sink_kept_or_one (Some e) err'"
    and "r = ANET_ERR \<and> resolver w addr service 0 \<noteq> Resolved [] \<longrightarrow> one_message err'"
    and "all_succeed w \<and> (\<exists>cs. resolver w addr service 0 = Resolved cs) \<longrightarrow> err' = Some e"
    and "flags AND ANET_CONNECT_NONBLOCK = 0 \<and>
         (\<exists>p ps e' vs. resolver w addr service 0 = Resolved (p # ps) \<and>
                       script w = Succeeds # Succeeds # Fails e' # vs) \<longrightarrow> one_message err'"
    and "resolver w addr service 0 = Resolved [] \<longrightarrow> r = ANET_ERR \<and> err' = Some e"
proof -
  show "resolver w addr service 0 = Resolved [] \<longrightarrow> r = ANET_ERR \<and> err' = Some e"
  proof
    assume res: "resolver w addr service 0 = Resolved []"
    from assms have "(r, err', ss', w') = anetTcpGenericConnect (Some e) addr service flags ss w"
      by simp
    also note anetTcpGenericConnect_resolved[OF res]
    finally show "r = ANET_ERR \<and> err' = Some e" by simp
  qed
  show "sink_kept_or_one (Some e) err'"
    and "r = ANET_ERR \<and> resolver w addr service 0 \<noteq> Resolved [] \<longrightarrow> one_message err'"
  proof -
    show "sink_kept_or_one (Some e) err'"
    proof (cases "resolver w addr service 0")
      case (Unresolved g)
      from assms have "err' = fst (snd (anetTcpGenericConnect (Some e) addr service flags ss w))"
        by simp
      then have "err' = anetSetError (Some e)
          (''can't resolve '' @ (fmt_s addr @ '': '' @ gai_strerror w (gai_code g)))"
        by (simp add: anetTcpGenericConnect_unresolved[OF Unresolved] del: append.simps)
      then show ?thesis
        by (simp add: sink_kept_or_one_def written message_prefixes_def del: append.simps)
    next
      case (Resolved cs)
      with assms have "anetTcpGenericConnect_loop (Some e) flags ss cs (w\<lparr>gai_live := Suc (gai_live w)\<rparr>)
          = (r, err', ss', w')"
        by (simp add: anetTcpGenericConnect_resolved)
      from connect_loop_sink[OF this] show ?thesis by simp
    qed
    show "r = ANET_ERR \<and> resolver w addr service 0 \<noteq> Resolved [] \<longrightarrow> one_message err'"
    proof (cases "resolver w addr service 0")
      case (Unresolved g)
      from assms have "err' = fst (snd (anetTcpGenericConnect (Some e) addr service flags ss w))"
        by simp
      then have "err' = anetSetError (Some e)
          (''can't resolve '' @ (fmt_s addr @ '': '' @ gai_strerror w (gai_code g)))"
        by (simp add: anetTcpGenericConnect_unresolved[OF Unresolved] del: append.simps)
      then show ?thesis
        by (simp add: written message_prefixes_def del: append.simps)
    next
      case (Resolved cs)
      with assms have "anetTcpGenericConnect_loop (Some e) flags ss cs (w\<lparr>gai_live := Suc (gai_live w)\<rparr>)
          = (r, err', ss', w')"
        by (simp add: anetTcpGenericConnect_resolved)
      from connect_loop_sink[OF this] Resolved show ?thesis by simp
    qed
  qed
  show "all_succeed w \<and> (\<exists>cs. resolver w addr service 0 = Resolved cs) \<longrightarrow> err' = Some e"
  proof (intro impI, elim conjE exE)
    fix cs assume ok: "all_succeed w" and res: "resolver w addr service 0 = Resolved cs"
    from res assms have run: "anetTcpGenericConnect_loop (Some e) flags ss cs (w\<lparr>gai_live := Suc (gai_live w)\<rparr>)
          = (r, err', ss', w')"
      by (simp add: anetTcpGenericConnect_resolved)
    from connect_loop_all_succeed[of "w\<lparr>gai_live := Suc (gai_live w)\<rparr>" "Some e" flags ss cs] ok run
    show "err' = Some e" by auto
  qed
  show "flags AND ANET_CONNECT_NONBLOCK = 0 \<and>
         (\<exists>p ps e' vs. resolver w addr service 0 = Resolved (p # ps) \<and>
                       script w = Succeeds # Succeeds # Fails e' # vs) \<longrightarrow> one_message err'"
  proof (intro impI, elim conjE exE)
    fix p ps e' vs
    assume fl: "flags AND ANET_CONNECT_NONBLOCK = 0"
      and res: "resolver w addr service 0 = Resolved (p # ps)"
      and scr: "script w = Succeeds # Succeeds # Fails e' # vs"
    from res assms have run: "anetTcpGenericConnect_loop (Some e) flags ss (p # ps)
          (w\<lparr>gai_live := Suc (gai_live w)\<rparr>) = (r, err', ss', w')"
      by (simp add: anetTcpGenericConnect_resolved)
    have "script (w\<lparr>gai_live := Suc (gai_live w)\<rparr>) = Succeeds # Succeeds # Fails e' # vs"
      using scr by simp
    from connect_loop_first_fails[OF this fl run] show "one_message err'" .
  qed
qed

lemma anetTcpServer_sink:
  assumes "anetTcpServer (Some e) service bindaddr fds nfds w = (r, err', fds', w')"
  shows "sink_kept_or_one (Some e) err'"
    and "r = ANET_ERR \<and> 0 < nfds \<and> resolver w bindaddr service AI_PASSIVE \<noteq> Resolved []
           \<longrightarrow> one_message err'"
    and "all_succeed w \<and> (\<exists>cs. resolver w bindaddr service AI_PASSIVE = Resolved cs)
           \<longrightarrow> err' = Some e"
    and "(\<exists>cs. resolver w bindaddr service AI_PASSIVE = Resolved cs \<and> (cs = [] \<or> nfds \<le> 0))
           \<longrightarrow> r = ANET_ERR \<and> err' = Some e"
proof -
  show "(\<exists>cs. resolver w bindaddr service AI_PASSIVE = Resolved cs \<and> (cs = [] \<or> nfds \<le> 0))
           \<longrightarrow> r = ANET_ERR \<and> err' = Some e"
  proof (intro impI, elim exE conjE)
    fix cs assume res: "resolver w bindaddr service AI_PASSIVE = Resolved cs"
      and none: "cs = [] \<or> nfds \<le> 0"
    have "anetTcpServer_loop (Some e) cs fds nfds 0 (w\<lparr>gai_live := Suc (gai_live w)\<rparr>) =
            (Some e, fds, 0, w\<lparr>gai_live := Suc (gai_live w)\<rparr>)"
      using none by (cases cs) auto
    moreover from assms have
      "(r, err', fds', w') = anetTcpServer (Some e) service bindaddr fds nfds w" by simp
    ultimately show "r = ANET_ERR \<and> err' = Some e"
      by (simp add: anetTcpServer_resolved[OF res])
  qed
  have both: "sink_kept_or_one (Some e) err' \<and>
     (r = ANET_ERR \<and> 0 < nfds \<and> resolver w bindaddr service AI_PASSIVE \<noteq> Resolved []
           \<longrightarrow> one_message err')"
  proof (cases "resolver w bindaddr service AI_PASSIVE")
    case (Unresolved g)
    from assms have "err' = fst (snd (anetTcpServer (Some e) service bindaddr fds nfds w))"
      by simp
    then have "err' = anetSetError (Some e)
        (''can't resolve '' @ (fmt_s bindaddr @ '': '' @ gai_strerror w (gai_code g)))"
      by (simp add: anetTcpServer_unresolved[OF Unresolved] del: append.simps)
    then show ?thesis
      by (simp add: sink_kept_or_one_def written message_prefixes_def del: append.simps)
  next
    case (Resolved cs)
    obtain err1 fds1 i1 w1 where loop:
      "anetTcpServer_loop (Some e) cs fds nfds 0 (w\<lparr>gai_live := Suc (gai_live w)\<rparr>) = (err1, fds1, i1, w1)"
      by (cases "anetTcpServer_loop (Some e) cs fds nfds 0 (w\<lparr>gai_live := Suc (gai_live w)\<rparr>)") auto
    with Resolved assms have r: "r = (if i1 > 0 then i1 else ANET_ERR)" and e: "err' = err1"
      by (auto simp: anetTcpServer_resolved)
    from server_loop_sink[OF loop] have
      k: "sink_kept_or_one (Some e) err1" "0 \<le> i1"
         "i1 = 0 \<and> 0 < nfds \<and> cs \<noteq> [] \<longrightarrow> one_message err1"
      by auto
    have "r = ANET_ERR \<longrightarrow> i1 = 0" using r k(2) by (auto simp: ANET_ERR_def split: if_splits)
    with k e Resolved show ?thesis by auto
  qed
  then show "sink_kept_or_one (Some e) err'"
    and "r = ANET_ERR \<and> 0 < nfds \<and> resolver w bindaddr service AI_PASSIVE \<noteq> Resolved []
           \<longrightarrow> one_message err'" by simp_all
  show "all_succeed w \<and> (\<exists>cs. resolver w bindaddr service AI_PASSIVE = Resolved cs)
           \<longrightarrow> err' = Some e"
  proof (intro impI, elim conjE exE)
    fix cs assume ok: "all_succeed w" and res: "resolver w bindaddr service AI_PASSIVE = Resolved cs"
    from server_loop_all_succeed[of "w\<lparr>gai_live := Suc (gai_live w)\<rparr>" "Some e" cs fds nfds 0] ok
    obtain fds1 i1 w1 where
      "anetTcpServer_loop (Some e) cs fds nfds 0 (w\<lparr>gai_live := Suc (gai_live w)\<rparr>) = (Some e, fds1, i1, w1)"
      by auto
    with res assms show "err' = Some e"
      by (auto simp: anetTcpServer_resolved)
  qed
qed

lemma anetTcpGenericConnect_first:
  assumes "anetTcpGenericConnect (Some e) addr service flags ss w = (r, err', ss', w')"
    and "resolver w addr service 0 = Resolved (p # ps)"
  shows "if first_candidate_connects flags (script w) then r \<noteq> ANET_ERR \<and> err' = Some e
         else one_message err'"
proof -
  from assms have "anetTcpGenericConnect_loop (Some e) flags ss (p # ps)
      (w\<lparr>gai_live := Suc (gai_live w)\<rparr>) = (r, err', ss', w')"
    by (simp add: anetTcpGenericConnect_resolved)
  from connect_loop_first[OF this] show ?thesis by simp
qed

lemma anetTcpServer_quiet:
  assumes "anetTcpServer (Some e) service bindaddr fds nfds w = (r, err', fds', w')"
    and "resolver w bindaddr service AI_PASSIVE = Resolved cs"
  shows "if every_candidate_listens cs nfds 0 (script w) then err' = Some e else one_message err'"
proof -
  obtain err1 fds1 i1 w1 where
    loop: "anetTcpServer_loop (Some e) cs fds nfds 0 (w\<lparr>gai_live := Suc (gai_live w)\<rparr>) =
      (err1, fds1, i1, w1)"
    by (cases "anetTcpServer_loop (Some e) cs fds nfds 0 (w\<lparr>gai_live := Suc (gai_live w)\<rparr>)") auto
  with assms have "err' = err1" by (auto simp: anetTcpServer_resolved)
  with server_loop_quiet[OF loop] show ?thesis by simp
qed

lemma anetTcpNonBlockConnectAddr_sink:
  assumes "anetTcpNonBlockConnectAddr (Some e) p ss w = (r, err', ss', w')"
  shows "sink_single (Some e) r err'"
proof -
  obtain s err1 w1 where cs: "anetCreateSocket (Some e) (ai_family p) w = (s, err1, w1)"
    by (cases "anetCreateSocket (Some e) (ai_family p) w") auto
  from anetCreateSocket_sink[OF cs] have s1: "sink_single (Some e) s err1" .
  show ?thesis
  proof (cases "s = ANET_ERR")
    case True
    with assms cs s1 show ?thesis by (simp add: anetTcpNonBlockConnectAddr_def sink_single_def)
  next
    case False
    with s1 have e1: "err1 = Some e" by (simp add: sink_single_def)
    obtain nb err2 w2 where nb: "anetNonBlock (Some e) s w1 = (nb, err2, w2)"
      by (cases "anetNonBlock (Some e) s w1") auto
    from anetNonBlock_sink[OF nb] have s2: "sink_single (Some e) nb err2" "nb = ANET_OK \<or> nb = ANET_ERR"
      by simp_all
    show ?thesis
    proof (cases "nb = ANET_OK")
      case nbfail: False
      with s2 have "one_message err2" by (auto simp: sink_single_def)
      moreover from assms cs False e1 nb nbfail have "r = ANET_ERR" "err' = err2"
        by (simp_all add: anetTcpNonBlockConnectAddr_def)
      ultimately show ?thesis by (simp add: sink_single_def)
    next
      case nbok: True
      with s2 have e2: "err2 = Some e" by (auto simp: sink_single_def ANET_OK_def ANET_ERR_def)
      obtain c w3 where c: "sys_connect w2 s (ai_addr p) (ai_addrlen p) = (c, w3)"
        by (cases "sys_connect w2 s (ai_addr p) (ai_addrlen p)") auto
      show ?thesis
      proof (cases "c \<ge> 0 \<or> errno w3 = EINPROGRESS")
        case True
        with assms cs False e1 nb nbok e2 c have "r = s" "err' = Some e"
          by (auto simp: anetTcpNonBlockConnectAddr_def split: if_splits)
        with False show ?thesis by (simp add: sink_single_def)
      next
        case cfail: False
        with assms cs False e1 nb nbok e2 c have "r = ANET_ERR"
          "err' = anetSetError (Some e) (''connect: '' @ strerror w3 (errno w3))"
          by (auto simp: anetTcpNonBlockConnectAddr_def simp del: append.simps split: if_splits)
        then show ?thesis
          by (simp add: sink_single_def written message_prefixes_def del: append.simps)
      qed
    qed
  qed
qed

text \<open>
  C6, as amended. With a sink provided, an operation that makes a single attempt
  (the option setters, \<open>anetCreateSocket\<close>, \<open>anetGetaddrinfo\<close>,
  \<open>anetTcpNonBlockConnectAddr\<close>, \<open>anetListen\<close>, \<open>anetTcpAccept\<close>) leaves the sink
  untouched when it returns a value other than \<open>ANET_ERR\<close> and holding one message
  when it returns \<open>ANET_ERR\<close>. \<open>anetTcpGenericConnect\<close> (which \<open>anetTcpConnect\<close> and
  \<open>anetTcpNonBlockConnect\<close> call with the flags 0 and 1) and \<open>anetTcpServer\<close> leave the
  sink untouched or holding one message, and holding one message when they return
  \<open>ANET_ERR\<close>, unless the list of candidates is empty or, for the server, \<open>nfds\<close> is not
  positive: then they return \<open>ANET_ERR\<close> with the sink untouched. With candidates, a
  connect call leaves the sink untouched if its first candidate connects, be it with the
  connection pending on a non-blocking socket, and then it does not return \<open>ANET_ERR\<close>;
  if the first candidate fails, the sink holds one message whatever the call returns, also
  when a later candidate connects. A server call leaves the sink untouched if none of the
  candidates it comes to fails, and holding one message if one of them does, whatever the
  call returns.
\<close>

theorem sink_after_call:
  "(\<forall>fd w. case anetNonBlock (Some e) fd w of (r, err', w') \<Rightarrow> sink_single (Some e) r err') \<and>
   (\<forall>fd w. case anetTcpNoDelay (Some e) fd w of (r, err', w') \<Rightarrow> sink_single (Some e) r err') \<and>
   (\<forall>fd n w. case anetSetSendBuffer (Some e) fd n w of (r, err', w') \<Rightarrow>
      sink_single (Some e) r err') \<and>
   (\<forall>fd w. case anetTcpKeepAlive (Some e) fd w of (r, err', w') \<Rightarrow> sink_single (Some e) r err') \<and>
   (\<forall>domain w. case anetCreateSocket (Some e) domain w of (r, err', w') \<Rightarrow>
      sink_single (Some e) r err') \<and>
   (\<forall>addr service w. case anetGetaddrinfo (Some e) addr service w of (r, err', res, w') \<Rightarrow>
      sink_single (Some e) r err') \<and>
   (\<forall>p ss w. case anetTcpNonBlockConnectAddr (Some e) p ss w of (r, err', ss', w') \<Rightarrow>
      sink_single (Some e) r err') \<and>
   (\<forall>s sa len w. case anetListen (Some e) s sa len w of (r, err', w') \<Rightarrow>
      sink_single (Some e) r err') \<and>
   (\<forall>s ss w. case anetTcpAccept (Some e) s ss w of
      None \<Rightarrow> True
    | Some (r, err', ss', w') \<Rightarrow> sink_single (Some e) r err') \<and>
   (\<forall>addr service flags ss w.
      case anetTcpGenericConnect (Some e) addr service flags ss w of (r, err', ss', w') \<Rightarrow>
        sink_kept_or_one (Some e) err' \<and>
        (r = ANET_ERR \<and> resolver w addr service 0 \<noteq> Resolved [] \<longrightarrow> one_message err') \<and>
        (all_succeed w \<and> (\<exists>cs. resolver w addr service 0 = Resolved cs) \<longrightarrow> err' = Some e) \<and>
        (flags AND ANET_CONNECT_NONBLOCK = 0 \<and>
         (\<exists>p ps e' vs. resolver w addr service 0 = Resolved (p # ps) \<and>
                       script w = Succeeds # Succeeds # Fails e' # vs) \<longrightarrow> one_message err') \<and>
        (resolver w addr service 0 = Resolved [] \<longrightarrow> r = ANET_ERR \<and> err' = Some e) \<and>
        (\<forall>p ps. resolver w addr service 0 = Resolved (p # ps) \<longrightarrow>
           (if first_candidate_connects flags (script w) then r \<noteq> ANET_ERR \<and> err' = Some e
            else one_message err'))) \<and>
   (\<forall>service bindaddr fds nfds w.
      case anetTcpServer (Some e) service bindaddr fds nfds w of (r, err', fds', w') \<Rightarrow>
        sink_kept_or_one (Some e) err' \<and>
        (r = ANET_ERR \<and> 0 < nfds \<and> resolver w bindaddr service AI_PASSIVE \<noteq> Resolved []
           \<longrightarrow> one_message err') \<and>
        (all_succeed w \<and> (\<exists>cs. resolver w bindaddr service AI_PASSIVE = Resolved cs)
           \<longrightarrow> err' = Some e) \<and>
        ((\<exists>cs. resolver w bindaddr service AI_PASSIVE = Resolved cs \<and> (cs = [] \<or> nfds \<le> 0))
           \<longrightarrow> r = ANET_ERR \<and> err' = Some e) \<and>
        (\<forall>cs. resolver w bindaddr service AI_PASSIVE = Resolved cs \<longrightarrow>
           (if every_candidate_listens cs nfds 0 (script w) then err' = Some e
            else one_message err')))"
proof (intro conjI allI)
  fix fd w
  show "case anetNonBlock (Some e) fd w of (r, err', w') \<Rightarrow> sink_single (Some e) r err'"
    using anetNonBlock_sink[of e fd w] by (cases "anetNonBlock (Some e) fd w") simp
  show "case anetTcpNoDelay (Some e) fd w of (r, err', w') \<Rightarrow> sink_single (Some e) r err'"
    using anetTcpNoDelay_sink[of e fd w] by (cases "anetTcpNoDelay (Some e) fd w") simp
  show "case anetTcpKeepAlive (Some e) fd w of (r, err', w') \<Rightarrow> sink_single (Some e) r err'"
    using anetTcpKeepAlive_sink[of e fd w] by (cases "anetTcpKeepAlive (Some e) fd w") simp
next
  fix fd n w
  show "case anetSetSendBuffer (Some e) fd n w of (r, err', w') \<Rightarrow> sink_single (Some e) r err'"
    using anetSetSendBuffer_sink[of e fd n w] by (cases "anetSetSendBuffer (Some e) fd n w") simp
next
  fix domain w
  show "case anetCreateSocket (Some e) domain w of (r, err', w') \<Rightarrow> sink_single (Some e) r err'"
    using anetCreateSocket_sink[of e domain w] by (cases "anetCreateSocket (Some e) domain w") simp
next
  fix addr service w
  show "case anetGetaddrinfo (Some e) addr service w of (r, err', res, w') \<Rightarrow>
      sink_single (Some e) r err'"
    using anetGetaddrinfo_sink[of e addr service w]
    by (cases "anetGetaddrinfo (Some e) addr service w") simp
next
  fix p ss w
  show "case anetTcpNonBlockConnectAddr (Some e) p ss w of (r, err', ss', w') \<Rightarrow>
      sink_single (Some e) r err'"
    using anetTcpNonBlockConnectAddr_sink[of e p ss w]
    by (cases "anetTcpNonBlockConnectAddr (Some e) p ss w") simp
next
  fix s sa len w
  show "case anetListen (Some e) s sa len w of (r, err', w') \<Rightarrow> sink_single (Some e) r err'"
    using anetListen_sink[of e s sa len w] by (cases "anetListen (Some e) s sa len w") simp
next
  fix s ss w
  show "case anetTcpAccept (Some e) s ss w of
      None \<Rightarrow> True
    | Some (r, err', ss', w') \<Rightarrow> sink_single (Some e) r err'"
    using anetTcpAccept_sink[of e s ss w] by (auto split: option.splits)
next
  fix addr service flags ss w
  obtain r err' ss' w' where
    run: "anetTcpGenericConnect (Some e) addr service flags ss w = (r, err', ss', w')"
    by (cases "anetTcpGenericConnect (Some e) addr service flags ss w") auto
  have first: "\<forall>p ps. resolver w addr service 0 = Resolved (p # ps) \<longrightarrow>
           (if first_candidate_connects flags (script w) then r \<noteq> ANET_ERR \<and> err' = Some e
            else one_message err')"
    using anetTcpGenericConnect_first[OF run] by blast
  from anetTcpGenericConnect_sink[OF run] first run
  show "case anetTcpGenericConnect (Some e) addr service flags ss w of (r, err', ss', w') \<Rightarrow>
        sink_kept_or_one (Some e) err' \<and>
        (r = ANET_ERR \<and> resolver w addr service 0 \<noteq> Resolved [] \<longrightarrow> one_message err') \<and>
        (all_succeed w \<and> (\<exists>cs. resolver w addr service 0 = Resolved cs) \<longrightarrow> err' = Some e) \<and>
        (flags AND ANET_CONNECT_NONBLOCK = 0 \<and>
         (\<exists>p ps e' vs. resolver w addr service 0 = Resolved (p # ps) \<and>
                       script w = Succeeds # Succeeds # Fails e' # vs) \<longrightarrow> one_message err') \<and>
        (resolver w addr service 0 = Resolved [] \<longrightarrow> r = ANET_ERR \<and> err' = Some e) \<and>
        (\<forall>p ps. resolver w addr service 0 = Resolved (p # ps) \<longrightarrow>
           (if first_candidate_connects flags (script w) then r \<noteq> ANET_ERR \<and> err' = Some e
            else one_message err'))"
    by simp
next
  fix service bindaddr fds nfds w
  obtain r err' fds' w' where
    run: "anetTcpServer (Some e) service bindaddr fds nfds w = (r, err', fds', w')"
    by (cases "anetTcpServer (Some e) service bindaddr fds nfds w") auto
  have quiet: "\<forall>cs. resolver w bindaddr service AI_PASSIVE = Resolved cs \<longrightarrow>
           (if every_candidate_listens cs nfds 0 (script w) then err' = Some e
            else one_message err')"
    using anetTcpServer_quiet[OF run] by blast
  from anetTcpServer_sink[OF run] quiet run
  show "case anetTcpServer (Some e) service bindaddr fds nfds w of (r, err', fds', w') \<Rightarrow>
        sink_kept_or_one (Some e) err' \<and>
        (r = ANET_ERR \<and> 0 < nfds \<and> resolver w bindaddr service AI_PASSIVE \<noteq> Resolved []
           \<longrightarrow> one_message err') \<and>
        (all_succeed w \<and> (\<exists>cs. resolver w bindaddr service AI_PASSIVE = Resolved cs)
           \<longrightarrow> err' = Some e) \<and>
        ((\<exists>cs. resolver w bindaddr service AI_PASSIVE = Resolved cs \<and> (cs = [] \<or> nfds \<le> 0))
           \<longrightarrow> r = ANET_ERR \<and> err' = Some e) \<and>
        (\<forall>cs. resolver w bindaddr service AI_PASSIVE = Resolved cs \<longrightarrow>
           (if every_candidate_listens cs nfds 0 (script w) then err' = Some e
            else one_message err'))"
    by simp
qed

text \<open>
  The claim C6 as stated fails: a blocking connect whose first candidate is refused and
  whose second candidate connects returns the socket 3, and the sink that was empty holds
  the message of the refused candidate.
\<close>

theorem sink_changed_on_success:
  "fst (anetTcpConnect (Some []) (Some ''localhost'') (Some ''80'') None
          (sample_world [loopback6, loopback4] [Succeeds, Succeeds, Fails 111] [])) = 3 \<and>
   fst (snd (anetTcpConnect (Some []) (Some ''localhost'') (Some ''80'') None
          (sample_world [loopback6, loopback4] [Succeeds, Succeeds, Fails 111] [])))
     = Some ''connect: Connection refused'' \<and>
   \<not> sink_single (Some [])
        (fst (anetTcpConnect (Some []) (Some ''localhost'') (Some ''80'') None
          (sample_world [loopback6, loopback4] [Succeeds, Succeeds, Fails 111] [])))
        (fst (snd (anetTcpConnect (Some []) (Some ''localhost'') (Some ''80'') None
          (sample_world [loopback6, loopback4] [Succeeds, Succeeds, Fails 111] []))))"
  by code_simp

theorem sink_after_call_witness:
  "(case anetTcpGenericConnect (Some []) (Some ''localhost'') (Some ''80'') ANET_CONNECT_NONE None
           (sample_world [loopback6, loopback4] [Succeeds, Succeeds, Fails 111] []) of
      (r, err', ss', w') \<Rightarrow> one_message err') \<and>
   (case anetTcpGenericConnect (Some []) (Some ''localhost'') (Some ''80'') ANET_CONNECT_NONBLOCK None
           (sample_world [loopback6, loopback4]
              [Succeeds, Succeeds, Succeeds, Succeeds, Fails EINPROGRESS, Fails 1] []) of
      (r, err', ss', w') \<Rightarrow> r \<noteq> ANET_ERR \<and> err' = Some []) \<and>
   (case anetTcpServer (Some []) (Some ''30005'') None [0, 0] 2
           (sample_world [loopback4, loopback6] [Succeeds, Succeeds, Fails 98] []) of
      (r, err', fds', w') \<Rightarrow> one_message err') \<and>
   (case anetTcpServer (Some []) (Some ''30005'') None [0, 0] 2
           (sample_world [loopback6, loopback4] [Succeeds, Succeeds, Fails 1] []) of
      (r, err', fds', w') \<Rightarrow> err' = Some [])"
proof (intro conjI)
  note rest = sink_after_call[of "[]", THEN conjunct2, THEN conjunct2, THEN conjunct2,
      THEN conjunct2, THEN conjunct2, THEN conjunct2, THEN conjunct2, THEN conjunct2, THEN conjunct2]
  note connect = rest[THEN conjunct1]
  note server = rest[THEN conjunct2]
  let ?w1 = "sample_world [loopback6, loopback4] [Succeeds, Succeeds, Fails 111] []"
  have h1: "resolver ?w1 (Some ''localhost'') (Some ''80'') 0 = Resolved (loopback6 # [loopback4]) \<and>
      \<not> first_candidate_connects ANET_CONNECT_NONE (script ?w1)"
    by (simp add: sample_world_def first_candidate_connects_def answer_def ANET_CONNECT_NONE_def)
  from h1 connect[THEN spec[where x = "Some ''localhost''"], THEN spec[where x = "Some ''80''"],
        THEN spec[where x = ANET_CONNECT_NONE], THEN spec[where x = None], THEN spec[where x = ?w1]]
  show "case anetTcpGenericConnect (Some []) (Some ''localhost'') (Some ''80'')
      ANET_CONNECT_NONE None ?w1 of (r, err', ss', w') \<Rightarrow> one_message err'"
    by (auto split: prod.splits)
  let ?w2 = "sample_world [loopback6, loopback4]
      [Succeeds, Succeeds, Succeeds, Succeeds, Fails EINPROGRESS, Fails 1] []"
  have h2: "resolver ?w2 (Some ''localhost'') (Some ''80'') 0 = Resolved (loopback6 # [loopback4]) \<and>
      first_candidate_connects ANET_CONNECT_NONBLOCK (script ?w2)"
    by (simp add: sample_world_def first_candidate_connects_def answer_def
        ANET_CONNECT_NONBLOCK_def)
  from h2 connect[THEN spec[where x = "Some ''localhost''"], THEN spec[where x = "Some ''80''"],
        THEN spec[where x = ANET_CONNECT_NONBLOCK], THEN spec[where x = None], THEN spec[where x = ?w2]]
  show "case anetTcpGenericConnect (Some []) (Some ''localhost'') (Some ''80'')
      ANET_CONNECT_NONBLOCK None ?w2 of (r, err', ss', w') \<Rightarrow> r \<noteq> ANET_ERR \<and> err' = Some []"
    by (auto split: prod.splits)
  let ?w3 = "sample_world [loopback4, loopback6] [Succeeds, Succeeds, Fails 98] []"
  have h3: "resolver ?w3 None (Some ''30005'') AI_PASSIVE = Resolved [loopback4, loopback6] \<and>
      \<not> every_candidate_listens [loopback4, loopback6] 2 0 (script ?w3)"
    by (simp add: sample_world_def answer_def loopback4_def sa_family_def AF_INET6_def)
  from h3 server[THEN spec[where x = "Some ''30005''"], THEN spec[where x = None],
        THEN spec[where x = "[0, 0]"], THEN spec[where x = 2], THEN spec[where x = ?w3]]
  show "case anetTcpServer (Some []) (Some ''30005'') None [0, 0] 2 ?w3 of
      (r, err', fds', w') \<Rightarrow> one_message err'"
    by (auto split: prod.splits)
  let ?w4 = "sample_world [loopback6, loopback4] [Succeeds, Succeeds, Fails 1] []"
  have h4: "resolver ?w4 None (Some ''30005'') AI_PASSIVE = Resolved [loopback6, loopback4] \<and>
      every_candidate_listens [loopback6, loopback4] 2 0 (script ?w4)"
    by (simp add: sample_world_def answer_def loopback4_def loopback6_def sa_family_def
        AF_INET6_def)
  from h4 server[THEN spec[where x = "Some ''30005''"], THEN spec[where x = None],
        THEN spec[where x = "[0, 0]"], THEN spec[where x = 2], THEN spec[where x = ?w4]]
  show "case anetTcpServer (Some []) (Some ''30005'') None [0, 0] 2 ?w4 of
      (r, err', fds', w') \<Rightarrow> err' = Some []"
    by (auto split: prod.splits)
qed


section \<open>Proofs: the listeners of \<open>anetTcpServer\<close>\<close>

lemma next_verdict_effect:
  assumes "next_verdict w = (v, w1)"
  shows "fdtab w1 = fdtab w" "gai_live w1 = gai_live w"
    "v = Succeeds \<Longrightarrow> count_fails w1 = count_fails w"
    "v \<noteq> Succeeds \<Longrightarrow> count_fails w1 < count_fails w"
  using assms by (auto simp: next_verdict_def count_fails_def split: list.splits)

lemma count_fails_upd [simp]:
  "count_fails (upd_sock fd f w) = count_fails w"
  "count_fails (w\<lparr>errno := e\<rparr>) = count_fails w"
  "count_fails (w\<lparr>fdtab := t\<rparr>) = count_fails w"
  "count_fails (w\<lparr>gai_live := g\<rparr>) = count_fails w"
  by (simp_all add: count_fails_def upd_sock_def)

lemma upd_sock_fields [simp]:
  "gai_live (upd_sock fd f w) = gai_live w"
  "script (upd_sock fd f w) = script w"
  "errno (upd_sock fd f w) = errno w"
  by (simp_all add: upd_sock_def)

lemma upd_sock_hd:
  assumes "fdtab w = (s, x) # tab" and "s \<notin> fst ` set tab"
  shows "fdtab (upd_sock s f w) = (s, f x) # tab"
proof -
  have "map (\<lambda>(k, y). if k = s then (k, f y) else (k, y)) tab = tab"
    using assms(2) by (induction tab) auto
  with assms(1) show ?thesis by (simp add: upd_sock_def)
qed

lemma sys_close_hd:
  assumes "fdtab w = (s, x) # tab" and "s \<notin> fst ` set tab"
  shows "fdtab (sys_close w s) = tab"
    "gai_live (sys_close w s) = gai_live w" "count_fails (sys_close w s) = count_fails w"
proof -
  have "filter (\<lambda>(k, y). k \<noteq> s) tab = tab"
    using assms(2) by (induction tab) auto
  with assms(1) show "fdtab (sys_close w s) = tab" by (simp add: sys_close_def)
  show "gai_live (sys_close w s) = gai_live w" "count_fails (sys_close w s) = count_fails w"
    using assms(1) by (simp_all add: sys_close_def)
qed

text \<open>What a call on the newest descriptor does to the table.\<close>

lemma on_fd_hd:
  assumes "fdtab w = (s, x) # tab"
  shows "on_fd w s call =
     (case next_verdict w of
        (Fails e, w1) \<Rightarrow> (-1, w1\<lparr>errno := e\<rparr>)
      | (Succeeds, w1) \<Rightarrow> call x w1)"
  by (simp add: on_fd_def assms)

lemma anetCreateSocket_effect:
  assumes run: "anetCreateSocket err af w = (s, err', w')"
  shows "gai_live w' = gai_live w \<and> count_fails w' \<le> count_fails w \<and>
     (if s = ANET_ERR then
        count_fails w' < count_fails w \<and>
        (fdtab w' = fdtab w \<or>
         (\<exists>fd. fd \<notin> fst ` set (fdtab w) \<and> fdtab w' = (fd, new_sock af) # fdtab w))
      else s \<notin> fst ` set (fdtab w) \<and>
           (\<exists>x. fdtab w' = (s, x) # fdtab w \<and> reusable x \<and> so_bound x = None \<and> so_backlog x = None))"
proof -
  obtain v wa where nv: "next_verdict w = (v, wa)" by (cases "next_verdict w") auto
  note ea = next_verdict_effect[OF nv]
  show ?thesis
  proof (cases v)
    case (Fails e)
    with nv run ea show ?thesis
      by (auto simp: anetCreateSocket_def sys_socket_def ANET_ERR_def)
  next
    case Succeeds
    let ?s = "lowest_free (open_fds w)"
    let ?wb = "wa\<lparr>fdtab := (?s, new_sock af) # fdtab w\<rparr>"
    have sock: "sys_socket w af = (?s, ?wb)"
      using nv Succeeds ea by (simp add: sys_socket_def open_fds_def)
    have tabb: "fdtab ?wb = (?s, new_sock af) # fdtab w" by simp
    have fresh: "?s \<notin> fst ` set (fdtab w)" by (rule lowest_free_fresh)
    obtain v2 wc where nv2: "next_verdict ?wb = (v2, wc)" by (cases "next_verdict ?wb") auto
    note ec = next_verdict_effect[OF nv2]
    have cb: "count_fails ?wb = count_fails w" using ea Succeeds by simp
    show ?thesis
    proof (cases v2)
      case (Fails e)
      then have "sys_setsockopt ?wb ?s SO_REUSEADDR 1 = (-1, wc\<lparr>errno := e\<rparr>)"
        by (simp add: sys_setsockopt_def on_fd_hd[OF tabb] nv2)
      with sock have "anetCreateSocket err af w =
          (ANET_ERR, anetSetError err (''setsockopt SO_REUSEADDR: '' @ strerror wc e), wc\<lparr>errno := e\<rparr>)"
        by (simp add: anetCreateSocket_def ANET_ERR_def del: append.simps)
      with run have "s = ANET_ERR" "w' = wc\<lparr>errno := e\<rparr>"
        by auto
      with ec Fails cb ea fresh show ?thesis by auto
    next
      case Succeeds
      let ?f = "\<lambda>s. s\<lparr>so_opts := (SO_REUSEADDR, 1) # so_opts s\<rparr>"
      have "sys_setsockopt ?wb ?s SO_REUSEADDR 1 = (0, upd_sock ?s ?f wc)"
        using Succeeds by (simp add: sys_setsockopt_def on_fd_hd[OF tabb] nv2)
      with sock have "anetCreateSocket err af w = (?s, err, upd_sock ?s ?f wc)"
        by (simp add: anetCreateSocket_def)
      with run have s: "s = ?s" and w': "w' = upd_sock ?s ?f wc"
        by auto
      have "fdtab wc = (?s, new_sock af) # fdtab w" using ec by simp
      from upd_sock_hd[OF this fresh] have "fdtab w' = (?s, ?f (new_sock af)) # fdtab w"
        by (simp add: w')
      moreover have "reusable (?f (new_sock af))" "so_bound (?f (new_sock af)) = None"
        "so_backlog (?f (new_sock af)) = None"
        by (simp_all add: reusable_def new_sock_def)
      ultimately show ?thesis using s w' ec Succeeds cb ea fresh by (auto simp: ANET_ERR_def)
    qed
  qed
qed

lemma sys_call_hd:
  assumes tab: "fdtab w = (s, x) # tab" and fresh: "s \<notin> fst ` set tab"
    and run: "on_fd w s (\<lambda>sk w1. (0, upd_sock s f w1)) = (r, w')"
  shows "gai_live w' = gai_live w \<and> count_fails w' \<le> count_fails w \<and>
     (if r = -1 then fdtab w' = (s, x) # tab \<and> count_fails w' < count_fails w
      else r = 0 \<and> fdtab w' = (s, f x) # tab)"
proof -
  obtain v wa where nv: "next_verdict w = (v, wa)" by (cases "next_verdict w") auto
  note ea = next_verdict_effect[OF nv]
  show ?thesis
  proof (cases v)
    case (Fails e)
    with nv have "on_fd w s (\<lambda>sk w1. (0, upd_sock s f w1)) = (-1, wa\<lparr>errno := e\<rparr>)"
      by (simp add: on_fd_hd[OF tab])
    with run have "r = -1" "w' = wa\<lparr>errno := e\<rparr>" by auto
    with ea Fails tab show ?thesis by simp
  next
    case Succeeds
    with nv have "on_fd w s (\<lambda>sk w1. (0, upd_sock s f w1)) = (0, upd_sock s f wa)"
      by (simp add: on_fd_hd[OF tab])
    with run have r: "r = 0" and w': "w' = upd_sock s f wa" by auto
    have "fdtab wa = (s, x) # tab" using ea tab by simp
    from upd_sock_hd[OF this fresh] have "fdtab w' = (s, f x) # tab" by (simp add: w')
    with r w' ea Succeeds show ?thesis by simp
  qed
qed

lemma anetListen_effect:
  assumes tab: "fdtab w = (s, x) # tab" and fresh: "s \<notin> fst ` set tab"
    and run: "anetListen err s sa len w = (r, err', w')"
  shows "gai_live w' = gai_live w \<and> count_fails w' \<le> count_fails w \<and>
     (if r = ANET_ERR then fdtab w' = tab \<and> count_fails w' < count_fails w
      else \<exists>x'. fdtab w' = (s, x') # tab \<and> listening (take len sa) x' \<and>
                (reusable x \<longrightarrow> reusable x'))"
proof -
  define w0 where "w0 = (if sa_family sa = AF_INET6 then snd (sys_setsockopt w s IPV6_V6ONLY 1) else w)"
  have "\<exists>x0. fdtab w0 = (s, x0) # tab \<and> (reusable x \<longrightarrow> reusable x0) \<and>
          gai_live w0 = gai_live w \<and> count_fails w0 \<le> count_fails w"
  proof (cases "sa_family sa = AF_INET6")
    case False
    with tab show ?thesis by (simp add: w0_def)
  next
    case True
    obtain r0 where r0: "sys_setsockopt w s IPV6_V6ONLY 1 = (r0, w0)"
      using True by (cases "sys_setsockopt w s IPV6_V6ONLY 1") (simp add: w0_def)
    from sys_call_hd[OF tab fresh r0[unfolded sys_setsockopt_def]]
    show ?thesis by (auto simp: reusable_def split: if_splits)
  qed
  then obtain x0 where w0: "fdtab w0 = (s, x0) # tab" "reusable x \<longrightarrow> reusable x0"
    "gai_live w0 = gai_live w" "count_fails w0 \<le> count_fails w"
    by blast
  obtain b w1 where b: "sys_bind w0 s sa len = (b, w1)" by (cases "sys_bind w0 s sa len") auto
  from sys_call_hd[OF w0(1) fresh b[unfolded sys_bind_def]]
  have e1: "gai_live w1 = gai_live w0" "count_fails w1 \<le> count_fails w0"
    "b = -1 \<Longrightarrow> fdtab w1 = (s, x0) # tab \<and> count_fails w1 < count_fails w0"
    "b \<noteq> -1 \<Longrightarrow> fdtab w1 = (s, x0\<lparr>so_bound := Some (take len sa)\<rparr>) # tab"
    by (auto split: if_splits)
  show ?thesis
  proof (cases "b = -1")
    case True
    with b have "anetListen err s sa len w =
        (ANET_ERR, anetSetError err (''bind: '' @ strerror w1 (errno w1)), sys_close w1 s)"
      unfolding anetListen_def Let_def w0_def[symmetric] by (simp del: append.simps)
    with run have "r = ANET_ERR" "w' = sys_close w1 s" by auto
    with sys_close_hd[of w1 s x0 tab] e1 True fresh w0 show ?thesis by simp
  next
    case False
    let ?x1 = "x0\<lparr>so_bound := Some (take len sa)\<rparr>"
    from e1 False have t1: "fdtab w1 = (s, ?x1) # tab" by simp
    obtain l w2 where l: "sys_listen w1 s 511 = (l, w2)" by (cases "sys_listen w1 s 511") auto
    from sys_call_hd[OF t1 fresh l[unfolded sys_listen_def]]
    have e2: "gai_live w2 = gai_live w1" "count_fails w2 \<le> count_fails w1"
      "l = -1 \<Longrightarrow> fdtab w2 = (s, ?x1) # tab \<and> count_fails w2 < count_fails w1"
      "l \<noteq> -1 \<Longrightarrow> fdtab w2 = (s, ?x1\<lparr>so_backlog := Some 511\<rparr>) # tab"
      by (auto split: if_splits)
    show ?thesis
    proof (cases "l = -1")
      case True
      with b l False have "anetListen err s sa len w =
          (ANET_ERR, anetSetError err (''listen: '' @ strerror w2 (errno w2)), sys_close w2 s)"
        unfolding anetListen_def Let_def w0_def[symmetric] by (simp del: append.simps)
      with run have "r = ANET_ERR" "w' = sys_close w2 s" by auto
      with sys_close_hd[of w2 s ?x1 tab] e1 e2 True fresh w0 show ?thesis by simp
    next
      case lok: False
      with b l False have "anetListen err s sa len w = (ANET_OK, err, w2)"
        unfolding anetListen_def Let_def w0_def[symmetric] by simp
      with run have "r = ANET_OK" "w' = w2" by auto
      moreover have "listening (take len sa) (?x1\<lparr>so_backlog := Some 511\<rparr>)"
        by (simp add: listening_def)
      moreover have "reusable x \<longrightarrow> reusable (?x1\<lparr>so_backlog := Some 511\<rparr>)"
        using w0(2) by (simp add: reusable_def)
      ultimately show ?thesis using e1 e2 lok w0 by (auto simp: ANET_OK_def ANET_ERR_def)
    qed
  qed
qed

text \<open>
  One turn of the loop of \<open>anetTcpServer\<close>: either the candidate is skipped, after a
  system call has failed, and what the turn opened is closed again or is a socket that
  \<open>anetCreateSocket\<close> gave up on; or the turn stores a new listening socket at index \<open>i\<close>.
\<close>

lemma server_step:
  assumes lt: "i < nfds"
  shows "\<exists>err2 w2 news1.
     fdtab w2 = news1 @ fdtab w \<and>
     gai_live w2 = gai_live w \<and> count_fails w2 \<le> count_fails w \<and>
     list_all (\<lambda>fd. fd \<notin> set (open_fds w)) (map fst news1) \<and> distinct (map fst news1) \<and>
     ((anetTcpServer_loop err (p # ps) fds nfds i w = anetTcpServer_loop err2 ps fds nfds i w2 \<and>
       filter (reusable \<circ> snd) news1 = [] \<and> count_fails w2 < count_fails w) \<or>
      (\<exists>s x. anetTcpServer_loop err (p # ps) fds nfds i w =
               anetTcpServer_loop err2 ps (fds[nat i := s]) nfds (i + 1) w2 \<and>
             news1 = [(s, x)] \<and> reusable x \<and> listening (bound_addr p) x))"
proof -
  obtain s err1 w1 where cs: "anetCreateSocket err (ai_family p) w = (s, err1, w1)"
    by (cases "anetCreateSocket err (ai_family p) w") auto
  from anetCreateSocket_effect[OF cs] have e1:
    "gai_live w1 = gai_live w" "count_fails w1 \<le> count_fails w"
    "s = ANET_ERR \<Longrightarrow> count_fails w1 < count_fails w \<and>
        (fdtab w1 = fdtab w \<or>
         (\<exists>fd. fd \<notin> fst ` set (fdtab w) \<and> fdtab w1 = (fd, new_sock (ai_family p)) # fdtab w))"
    "s \<noteq> ANET_ERR \<Longrightarrow> s \<notin> fst ` set (fdtab w) \<and>
           (\<exists>x. fdtab w1 = (s, x) # fdtab w \<and> reusable x)"
    by (auto split: if_splits)
  show ?thesis
  proof (cases "s = ANET_ERR")
    case True
    then have loop: "anetTcpServer_loop err (p # ps) fds nfds i w = anetTcpServer_loop err1 ps fds nfds i w1"
      using lt cs by simp
    from e1(3)[OF True] have less: "count_fails w1 < count_fails w" by simp
    from e1(3)[OF True] consider
      (none) "fdtab w1 = fdtab w"
      | (left) fd where "fd \<notin> fst ` set (fdtab w)" "fdtab w1 = (fd, new_sock (ai_family p)) # fdtab w"
      by blast
    then show ?thesis
    proof cases
      case none
      have "fdtab w1 = [] @ fdtab w" using none by simp
      then show ?thesis using loop less e1(1,2)
        by (intro exI[of _ err1] exI[of _ w1] exI[of _ "[]"]) simp
    next
      case left
      let ?n = "[(fd, new_sock (ai_family p))]"
      have "fdtab w1 = ?n @ fdtab w" using left by simp
      moreover have "filter (reusable \<circ> snd) ?n = []" by (simp add: reusable_def new_sock_def)
      moreover have "list_all (\<lambda>fd. fd \<notin> set (open_fds w)) (map fst ?n)"
        using left(1) by (simp add: open_fds_def)
      ultimately show ?thesis using loop less e1(1,2)
        by (intro exI[of _ err1] exI[of _ w1] exI[of _ ?n]) simp
    qed
  next
    case False
    from e1(4)[OF False] obtain x where
      fresh: "s \<notin> fst ` set (fdtab w)"
      and t1: "fdtab w1 = (s, x) # fdtab w" and rx: "reusable x" by blast
    obtain r err2 w2 where li: "anetListen err1 s (ai_addr p) (ai_addrlen p) w1 = (r, err2, w2)"
      by (cases "anetListen err1 s (ai_addr p) (ai_addrlen p) w1") auto
    from anetListen_effect[OF t1 fresh li] have e2:
      "gai_live w2 = gai_live w1" "count_fails w2 \<le> count_fails w1"
      "r = ANET_ERR \<Longrightarrow> fdtab w2 = fdtab w \<and> count_fails w2 < count_fails w1"
      "r \<noteq> ANET_ERR \<Longrightarrow> \<exists>x'. fdtab w2 = (s, x') # fdtab w \<and> listening (take (ai_addrlen p) (ai_addr p)) x' \<and>
                (reusable x \<longrightarrow> reusable x')"
      by (auto split: if_splits)
    show ?thesis
    proof (cases "r = ANET_ERR")
      case True
      then have loop: "anetTcpServer_loop err (p # ps) fds nfds i w = anetTcpServer_loop err2 ps fds nfds i w2"
        using lt cs False li by simp
      have "fdtab w2 = [] @ fdtab w" using e2(3)[OF True] by simp
      moreover have "count_fails w2 < count_fails w" using e2(3)[OF True] e1(2) by simp
      ultimately show ?thesis using loop e1(1,2) e2(1,2)
        by (intro exI[of _ err2] exI[of _ w2] exI[of _ "[]"]) simp
    next
      case rok: False
      then have loop: "anetTcpServer_loop err (p # ps) fds nfds i w =
          anetTcpServer_loop err2 ps (fds[nat i := s]) nfds (i + 1) w2"
        using lt cs False li by simp
      from e2(4)[OF rok] rx obtain x' where
        t2: "fdtab w2 = (s, x') # fdtab w" and lx: "listening (bound_addr p) x'" and rx': "reusable x'"
        by (auto simp: bound_addr_def)
      have "fdtab w2 = [(s, x')] @ fdtab w" using t2 by simp
      moreover have "list_all (\<lambda>fd. fd \<notin> set (open_fds w)) (map fst [(s, x')])"
        using fresh by (simp add: open_fds_def)
      ultimately show ?thesis using loop e1(1,2) e2(1,2) lx rx'
        by (intro exI[of _ err2] exI[of _ w2] exI[of _ "[(s, x')]"]) simp
    qed
  qed
qed

lemma server_loop_listeners:
  assumes "0 \<le> i" and "nat nfds \<le> length fds"
    and "anetTcpServer_loop err ps fds nfds i w = (err', fds', i', w')"
  shows "\<exists>news as.
     i \<le> i' \<and> i' \<le> max i nfds \<and>
     length fds' = length fds \<and> take (nat i) fds' = take (nat i) fds \<and>
     drop (nat i') fds' = drop (nat i') fds \<and>
     fdtab w' = news @ fdtab w \<and>
     list_all (\<lambda>fd. fd \<notin> set (open_fds w)) (map fst news) \<and> distinct (map fst news) \<and>
     length as = nat (i' - i) \<and> subseq as (map bound_addr ps) \<and>
     list_all2 (\<lambda>(fd, sk) (fd', a). fd = fd' \<and> listening a sk)
       (rev (filter (reusable \<circ> snd) news)) (zip (take (nat (i' - i)) (drop (nat i) fds')) as) \<and>
     (nfds \<le> i' \<or> count_fails w' + length ps \<le> nat (i' - i) + count_fails w) \<and>
     count_fails w' \<le> count_fails w \<and> gai_live w' = gai_live w"
  using assms
proof (induction ps arbitrary: err fds i w)
  case Nil
  then have "err' = err" "fds' = fds" "i' = i" "w' = w" by simp_all
  then show ?case
    by (intro exI[of _ "[]"]) simp
next
  case (Cons p ps)
  show ?case
  proof (cases "i < nfds")
    case False
    with Cons.prems have "err' = err" "fds' = fds" "i' = i" "w' = w" by simp_all
    then show ?thesis using False
      by (intro exI[of _ "[]"]) simp
  next
    case True
    from server_step[OF True, where err = err and p = p and ps = ps and fds = fds and w = w] obtain err2 w2 news1 where
      t2: "fdtab w2 = news1 @ fdtab w"
      and g2: "gai_live w2 = gai_live w" and c2: "count_fails w2 \<le> count_fails w"
      and f1: "list_all (\<lambda>fd. fd \<notin> set (open_fds w)) (map fst news1)"
      and d1: "distinct (map fst news1)"
      and alt: "(anetTcpServer_loop err (p # ps) fds nfds i w = anetTcpServer_loop err2 ps fds nfds i w2 \<and>
         filter (reusable \<circ> snd) news1 = [] \<and> count_fails w2 < count_fails w) \<or>
        (\<exists>s x. anetTcpServer_loop err (p # ps) fds nfds i w =
                 anetTcpServer_loop err2 ps (fds[nat i := s]) nfds (i + 1) w2 \<and>
               news1 = [(s, x)] \<and> reusable x \<and> listening (bound_addr p) x)"
      by blast
    have keys2: "set (open_fds w2) = fst ` set news1 \<union> set (open_fds w)"
      using t2 by (auto simp: open_fds_def)
    from alt show ?thesis
    proof (elim disjE conjE exE)
      assume loop: "anetTcpServer_loop err (p # ps) fds nfds i w = anetTcpServer_loop err2 ps fds nfds i w2"
        and nof: "filter (reusable \<circ> snd) news1 = []" and less: "count_fails w2 < count_fails w"
      from loop Cons.prems(3) have run: "anetTcpServer_loop err2 ps fds nfds i w2 = (err', fds', i', w')"
        by simp
      from Cons.IH[OF Cons.prems(1,2) run] obtain news2 as2 where ih:
        "i \<le> i'" "i' \<le> max i nfds" "length fds' = length fds" "take (nat i) fds' = take (nat i) fds"
        "drop (nat i') fds' = drop (nat i') fds" "fdtab w' = news2 @ fdtab w2"
        "list_all (\<lambda>fd. fd \<notin> set (open_fds w2)) (map fst news2)"
        "distinct (map fst news2)" "length as2 = nat (i' - i)" "subseq as2 (map bound_addr ps)"
        "list_all2 (\<lambda>(fd, sk) (fd', a). fd = fd' \<and> listening a sk)
           (rev (filter (reusable \<circ> snd) news2)) (zip (take (nat (i' - i)) (drop (nat i) fds')) as2)"
        "nfds \<le> i' \<or> count_fails w' + length ps \<le> nat (i' - i) + count_fails w2"
        "count_fails w' \<le> count_fails w2" "gai_live w' = gai_live w2"
        by blast
      have tab: "fdtab w' = (news2 @ news1) @ fdtab w" using ih(6) t2 by simp
      have fresh: "list_all (\<lambda>fd. fd \<notin> set (open_fds w)) (map fst (news2 @ news1))"
        using ih(7) f1 keys2 by (auto simp: list_all_iff)
      have dist: "distinct (map fst (news2 @ news1))"
        using ih(7,8) d1 keys2 by (auto simp: list_all_iff)
      have sub: "subseq as2 (map bound_addr (p # ps))" using ih(10) by (simp add: list_emb_Cons)
      have all2: "list_all2 (\<lambda>(fd, sk) (fd', a). fd = fd' \<and> listening a sk)
           (rev (filter (reusable \<circ> snd) (news2 @ news1)))
           (zip (take (nat (i' - i)) (drop (nat i) fds')) as2)"
        using ih(11) nof by simp
      have cnt: "nfds \<le> i' \<or> count_fails w' + length (p # ps) \<le> nat (i' - i) + count_fails w"
        using ih(12) less by auto
      have cl: "count_fails w' \<le> count_fails w" using ih(13) c2 by simp
      have gl: "gai_live w' = gai_live w" using ih(14) g2 by simp
      note facts = ih(1,2,3,4,5) tab fresh dist ih(9) sub all2 cnt cl gl
      show ?thesis
        by (intro exI[of _ "news2 @ news1"] exI[of _ as2] conjI) (fact facts)+
    next
      fix s x
      assume loop: "anetTcpServer_loop err (p # ps) fds nfds i w =
                 anetTcpServer_loop err2 ps (fds[nat i := s]) nfds (i + 1) w2"
        and n1: "news1 = [(s, x)]" and rx: "reusable x" and lx: "listening (bound_addr p) x"
      from loop Cons.prems(3)
      have run: "anetTcpServer_loop err2 ps (fds[nat i := s]) nfds (i + 1) w2 = (err', fds', i', w')"
        by simp
      have i1: "0 \<le> i + 1" using Cons.prems(1) by simp
      have len1: "nat nfds \<le> length (fds[nat i := s])" using Cons.prems(2) by simp
      from Cons.IH[OF i1 len1 run] obtain news2 as2 where ih:
        "i + 1 \<le> i'" "i' \<le> max (i + 1) nfds" "length fds' = length (fds[nat i := s])"
        "take (nat (i + 1)) fds' = take (nat (i + 1)) (fds[nat i := s])"
        "drop (nat i') fds' = drop (nat i') (fds[nat i := s])" "fdtab w' = news2 @ fdtab w2"
        "list_all (\<lambda>fd. fd \<notin> set (open_fds w2)) (map fst news2)"
        "distinct (map fst news2)" "length as2 = nat (i' - (i + 1))" "subseq as2 (map bound_addr ps)"
        "list_all2 (\<lambda>(fd, sk) (fd', a). fd = fd' \<and> listening a sk)
           (rev (filter (reusable \<circ> snd) news2))
           (zip (take (nat (i' - (i + 1))) (drop (nat (i + 1)) fds')) as2)"
        "nfds \<le> i' \<or> count_fails w' + length ps \<le> nat (i' - (i + 1)) + count_fails w2"
        "count_fails w' \<le> count_fails w2" "gai_live w' = gai_live w2"
        by blast
      have inb: "nat i < length fds" using True Cons.prems(1,2) by simp
      have nat1: "nat (i + 1) = Suc (nat i)" using Cons.prems(1) by simp
      have k: "nat (i' - i) = Suc (nat (i' - (i + 1)))" using ih(1) by simp
      have le: "i \<le> i'" "i' \<le> max i nfds" using ih(1,2) True by simp_all
      have len: "length fds' = length fds" using ih(3) by simp
      have at_i: "fds' ! nat i = s"
      proof -
        have "fds' ! nat i = take (nat (i + 1)) fds' ! nat i" by (simp add: nat1)
        also have "\<dots> = take (nat (i + 1)) (fds[nat i := s]) ! nat i" by (simp add: ih(4))
        also have "\<dots> = s" using inb by (simp add: nat1)
        finally show ?thesis .
      qed
      have tk: "take (nat i) fds' = take (nat i) fds"
      proof -
        have "take (nat i) fds' = take (nat i) (take (nat (i + 1)) fds')" by (simp add: nat1 min_def)
        also have "\<dots> = take (nat i) (take (nat (i + 1)) (fds[nat i := s]))" by (simp add: ih(4))
        also have "\<dots> = take (nat i) fds" by (simp add: nat1 min_def)
        finally show ?thesis .
      qed
      have dr: "drop (nat i') fds' = drop (nat i') fds"
        using ih(5) ih(1) Cons.prems(1) by simp
      have tab: "fdtab w' = (news2 @ news1) @ fdtab w" using ih(6) t2 by simp
      have fresh: "list_all (\<lambda>fd. fd \<notin> set (open_fds w)) (map fst (news2 @ news1))"
        using ih(7) f1 keys2 by (auto simp: list_all_iff)
      have dist: "distinct (map fst (news2 @ news1))"
        using ih(7,8) d1 keys2 by (auto simp: list_all_iff)
      have sub: "subseq (bound_addr p # as2) (map bound_addr (p # ps))" using ih(10) by simp
      have dropi: "drop (nat i) fds' = s # drop (nat (i + 1)) fds'"
        using inb len at_i by (simp add: nat1 Cons_nth_drop_Suc[symmetric])
      have all2: "list_all2 (\<lambda>(fd, sk) (fd', a). fd = fd' \<and> listening a sk)
           (rev (filter (reusable \<circ> snd) (news2 @ news1)))
           (zip (take (nat (i' - i)) (drop (nat i) fds')) (bound_addr p # as2))"
        using ih(11) rx lx by (simp add: n1 k dropi)
      have cnt: "nfds \<le> i' \<or> count_fails w' + length (p # ps) \<le> nat (i' - i) + count_fails w"
        using ih(12) c2 k by auto
      have la: "length (bound_addr p # as2) = nat (i' - i)" using ih(9) k by simp
      have cl: "count_fails w' \<le> count_fails w" using ih(13) c2 by simp
      have gl: "gai_live w' = gai_live w" using ih(14) g2 by simp
      note facts = le len tk dr tab fresh dist la sub all2 cnt cl gl
      show ?thesis
        by (intro exI[of _ "news2 @ news1"] exI[of _ "bound_addr p # as2"] conjI) (fact facts)+
    qed
  qed
qed

text \<open>
  C9. With an array of at least \<open>nfds\<close> entries, \<open>anetTcpServer\<close> returns \<open>ANET_ERR\<close> or a
  count \<open>r\<close> with \<open>0 < r \<le> nfds\<close>. With \<open>k\<close> the count (0 for \<open>ANET_ERR\<close>), only the
  first \<open>k\<close> entries of the array are written, so on \<open>ANET_ERR\<close> the array is as it was.
  The descriptors open afterwards are those open before and new ones; the new ones that
  \<open>anetCreateSocket\<close> completed are exactly the first \<open>k\<close> entries of the array, in the
  order of creation, each bound to the address of a candidate and listening with the
  backlog 511, and these addresses follow the order of the candidates: a socket whose
  bind or listen failed is closed. Unless the array is full, each candidate without a
  listener is paid for by a failed system call. The address list is released. If the name
  does not resolve the result is \<open>ANET_ERR\<close> and neither the array nor the descriptors
  change.
\<close>

theorem anetTcpServer_listeners:
  assumes cap: "nat nfds \<le> length fds"
    and run: "anetTcpServer err service bindaddr fds nfds w = (r, err', fds', w')"
  shows "case resolver w bindaddr service AI_PASSIVE of
      Unresolved g \<Rightarrow> r = ANET_ERR \<and> fds' = fds \<and> fdtab w' = fdtab w
    | Resolved cands \<Rightarrow>
        (\<exists>news as k.
           k = (if r = ANET_ERR then 0 else nat r) \<and>
           (r = ANET_ERR \<or> (0 < r \<and> r \<le> nfds)) \<and>
           length fds' = length fds \<and> drop k fds' = drop k fds \<and>
           (r = ANET_ERR \<longrightarrow> fds' = fds) \<and>
           fdtab w' = news @ fdtab w \<and> distinct (map fst news) \<and>
           list_all (\<lambda>fd. fd \<notin> set (open_fds w)) (map fst news) \<and>
           length as = k \<and> subseq as (map bound_addr cands) \<and>
           list_all2 (\<lambda>(fd, sk) (fd', a). fd = fd' \<and> listening a sk)
             (rev (filter (reusable \<circ> snd) news)) (zip (take k fds') as) \<and>
           (nfds \<le> int k \<or> length cands \<le> k + count_fails w) \<and>
           gai_live w' = gai_live w)"
proof (cases "resolver w bindaddr service AI_PASSIVE")
  case (Unresolved g)
  from run have "(r, err', fds', w') = anetTcpServer err service bindaddr fds nfds w" by simp
  also note anetTcpServer_unresolved[OF Unresolved]
  finally show ?thesis using Unresolved by simp
next
  case (Resolved cands)
  let ?w1 = "w\<lparr>gai_live := Suc (gai_live w)\<rparr>"
  obtain err1 fds1 i1 w1 where loop:
    "anetTcpServer_loop err cands fds nfds 0 ?w1 = (err1, fds1, i1, w1)"
    by (cases "anetTcpServer_loop err cands fds nfds 0 ?w1") auto
  from run have "(r, err', fds', w') = anetTcpServer err service bindaddr fds nfds w" by simp
  also note anetTcpServer_resolved[OF Resolved]
  finally have res: "r = (if i1 > 0 then i1 else ANET_ERR)" "fds' = fds1" "w' = sys_freeaddrinfo w1"
    by (simp_all add: loop)
  from server_loop_listeners[OF _ cap loop] obtain news as where inv:
    "0 \<le> i1" "i1 \<le> max 0 nfds" "length fds1 = length fds"
    "drop (nat i1) fds1 = drop (nat i1) fds" "fdtab w1 = news @ fdtab ?w1"
    "list_all (\<lambda>fd. fd \<notin> set (open_fds ?w1)) (map fst news)" "distinct (map fst news)"
    "length as = nat (i1 - 0)" "subseq as (map bound_addr cands)"
    "list_all2 (\<lambda>(fd, sk) (fd', a). fd = fd' \<and> listening a sk)
       (rev (filter (reusable \<circ> snd) news)) (zip (take (nat (i1 - 0)) (drop (nat 0) fds1)) as)"
    "nfds \<le> i1 \<or> count_fails w1 + length cands \<le> nat (i1 - 0) + count_fails ?w1"
    "count_fails w1 \<le> count_fails ?w1" "gai_live w1 = gai_live ?w1"
    by auto
  let ?k = "if r = ANET_ERR then 0 else nat r"
  have k: "?k = nat i1" using res(1) inv(1) by (auto simp: ANET_ERR_def)
  have c1: "?k = (if r = ANET_ERR then 0 else nat r)" by simp
  have c2: "r = ANET_ERR \<or> (0 < r \<and> r \<le> nfds)" using res(1) inv(2) by auto
  have c3: "length fds' = length fds" using res(2) inv(3) by simp
  have c4: "drop ?k fds' = drop ?k fds" using inv(4) unfolding k res(2) .
  have c5: "r = ANET_ERR \<longrightarrow> fds' = fds" using c4 by auto
  have c6: "fdtab w' = news @ fdtab w" using inv(5) by (simp add: res(3) sys_freeaddrinfo_def)
  have c7: "distinct (map fst news)" by (rule inv(7))
  have c8: "list_all (\<lambda>fd. fd \<notin> set (open_fds w)) (map fst news)"
    using inv(6) by (simp add: open_fds_def)
  have c9: "length as = ?k" using inv(8) k by simp
  have c10: "subseq as (map bound_addr cands)" by (rule inv(9))
  have c11: "list_all2 (\<lambda>(fd, sk) (fd', a). fd = fd' \<and> listening a sk)
             (rev (filter (reusable \<circ> snd) news)) (zip (take ?k fds') as)"
    using inv(10) unfolding k res(2) by simp
  have c12: "nfds \<le> int ?k \<or> length cands \<le> ?k + count_fails w"
    using inv(11) inv(1) unfolding k by auto
  have c13: "gai_live w' = gai_live w" using inv(13) by (simp add: res(3) sys_freeaddrinfo_def)
  have "\<exists>news as k.
           k = (if r = ANET_ERR then 0 else nat r) \<and>
           (r = ANET_ERR \<or> (0 < r \<and> r \<le> nfds)) \<and>
           length fds' = length fds \<and> drop k fds' = drop k fds \<and>
           (r = ANET_ERR \<longrightarrow> fds' = fds) \<and>
           fdtab w' = news @ fdtab w \<and> distinct (map fst news) \<and>
           list_all (\<lambda>fd. fd \<notin> set (open_fds w)) (map fst news) \<and>
           length as = k \<and> subseq as (map bound_addr cands) \<and>
           list_all2 (\<lambda>(fd, sk) (fd', a). fd = fd' \<and> listening a sk)
             (rev (filter (reusable \<circ> snd) news)) (zip (take k fds') as) \<and>
           (nfds \<le> int k \<or> length cands \<le> k + count_fails w) \<and>
           gai_live w' = gai_live w"
    by (intro exI[of _ news] exI[of _ as] exI[of _ ?k] conjI)
       (fact c1 c2 c3 c4 c5 c6 c7 c8 c9 c10 c11 c12 c13)+
  then show ?thesis using Resolved by simp
qed

theorem anetTcpServer_listeners_witness:
  "fst (anetTcpServer (Some []) (Some ''30005'') None [0, 0, 0, 0] 4
          (sample_world [loopback6, loopback4] [Succeeds, Succeeds, Succeeds, Fails 98] [])) = 1 \<and>
   (\<exists>news as.
      fdtab (snd (snd (snd (anetTcpServer (Some []) (Some ''30005'') None [0, 0, 0, 0] 4
          (sample_world [loopback6, loopback4] [Succeeds, Succeeds, Succeeds, Fails 98] [])))))
        = news @ fdtab (sample_world [loopback6, loopback4] [Succeeds, Succeeds, Succeeds, Fails 98] []) \<and>
      length as = 1 \<and> subseq as (map bound_addr [loopback6, loopback4]) \<and>
      list_all2 (\<lambda>(fd, sk) (fd', a). fd = fd' \<and> listening a sk)
        (rev (filter (reusable \<circ> snd) news))
        (zip (take 1 (fst (snd (snd (anetTcpServer (Some []) (Some ''30005'') None [0, 0, 0, 0] 4
          (sample_world [loopback6, loopback4] [Succeeds, Succeeds, Succeeds, Fails 98] [])))))) as))"
proof -
  let ?w = "sample_world [loopback6, loopback4] [Succeeds, Succeeds, Succeeds, Fails 98] []"
  let ?R = "anetTcpServer (Some []) (Some ''30005'') None [0, 0, 0, 0] 4 ?w"
  have r: "fst ?R = 1" by code_simp
  have cap: "nat 4 \<le> length [0, 0, 0, 0 :: int]" by simp
  have run: "?R = (fst ?R, fst (snd ?R), fst (snd (snd ?R)), snd (snd (snd ?R)))" by simp
  have res: "resolver ?w None (Some ''30005'') AI_PASSIVE = Resolved [loopback6, loopback4]"
    by (simp add: sample_world_def)
  from anetTcpServer_listeners[OF cap run] r show ?thesis
    unfolding res by (auto simp: ANET_ERR_def)
qed


section \<open>Proofs: releasing the address list, and accept\<close>

subsection \<open>Where the address list is released\<close>

lemma on_fd_gai_live:
  assumes "\<And>sk w1. gai_live (snd (call sk w1)) = gai_live w1"
  shows "gai_live (snd (on_fd w fd call)) = gai_live w"
proof (cases "map_of (fdtab w) fd")
  case None
  then show ?thesis by (simp add: on_fd_def)
next
  case (Some sk)
  obtain v w1 where nv: "next_verdict w = (v, w1)" by (cases "next_verdict w") auto
  from next_verdict_effect(2)[OF nv] assms[of sk w1] Some nv show ?thesis
    by (cases v) (simp_all add: on_fd_def)
qed

lemma sys_gai_live [simp]:
  "gai_live (snd (sys_socket w af)) = gai_live w"
  "gai_live (snd (sys_setsockopt w fd opt val)) = gai_live w"
  "gai_live (snd (sys_fcntl_getfl w fd)) = gai_live w"
  "gai_live (snd (sys_fcntl_setfl w fd fl)) = gai_live w"
  "gai_live (snd (sys_bind w fd sa len)) = gai_live w"
  "gai_live (snd (sys_listen w fd n)) = gai_live w"
  "gai_live (sys_close w fd) = gai_live w"
proof -
  obtain v w1 where nv: "next_verdict w = (v, w1)" by (cases "next_verdict w") auto
  from next_verdict_effect(2)[OF nv] nv show "gai_live (snd (sys_socket w af)) = gai_live w"
    by (cases v) (simp_all add: sys_socket_def)
  show "gai_live (snd (sys_setsockopt w fd opt val)) = gai_live w"
    unfolding sys_setsockopt_def by (rule on_fd_gai_live) simp
  show "gai_live (snd (sys_fcntl_getfl w fd)) = gai_live w"
    unfolding sys_fcntl_getfl_def by (rule on_fd_gai_live) simp
  show "gai_live (snd (sys_fcntl_setfl w fd fl)) = gai_live w"
    unfolding sys_fcntl_setfl_def by (rule on_fd_gai_live) simp
  show "gai_live (snd (sys_bind w fd sa len)) = gai_live w"
    unfolding sys_bind_def by (rule on_fd_gai_live) simp
  show "gai_live (snd (sys_listen w fd n)) = gai_live w"
    unfolding sys_listen_def by (rule on_fd_gai_live) simp
  show "gai_live (sys_close w fd) = gai_live w"
    by (simp add: sys_close_def split: option.splits)
qed

lemma sys_connect_gai_live [simp]: "gai_live (snd (sys_connect w fd sa len)) = gai_live w"
proof (cases "map_of (fdtab w) fd")
  case None
  then show ?thesis by (simp add: sys_connect_def)
next
  case (Some sk)
  obtain v w1 where nv: "next_verdict w = (v, w1)" by (cases "next_verdict w") auto
  from next_verdict_effect(2)[OF nv] Some nv show ?thesis
    by (cases v) (simp_all add: sys_connect_def)
qed

lemma anetCreateSocket_gai_live:
  "anetCreateSocket err af w = (s, err', w') \<Longrightarrow> gai_live w' = gai_live w"
proof -
  assume run: "anetCreateSocket err af w = (s, err', w')"
  obtain s1 w1 where a: "sys_socket w af = (s1, w1)" by (cases "sys_socket w af") auto
  obtain r2 w2 where b: "sys_setsockopt w1 s1 SO_REUSEADDR 1 = (r2, w2)"
    by (cases "sys_setsockopt w1 s1 SO_REUSEADDR 1") auto
  have "gai_live w1 = gai_live w" using sys_gai_live(1)[of w af] a by simp
  moreover have "gai_live w2 = gai_live w1" using sys_gai_live(2)[of w1 s1 SO_REUSEADDR 1] b by simp
  moreover have "w' = w1 \<or> w' = w2"
    using run a b by (auto simp: anetCreateSocket_def split: if_splits)
  ultimately show ?thesis by auto
qed

lemma anetNonBlock_gai_live:
  "anetNonBlock err fd w = (r, err', w') \<Longrightarrow> gai_live w' = gai_live w"
proof -
  assume run: "anetNonBlock err fd w = (r, err', w')"
  obtain fl w1 where a: "sys_fcntl_getfl w fd = (fl, w1)" by (cases "sys_fcntl_getfl w fd") auto
  obtain r2 w2 where b: "sys_fcntl_setfl w1 fd (fl OR O_NONBLOCK) = (r2, w2)"
    by (cases "sys_fcntl_setfl w1 fd (fl OR O_NONBLOCK)") auto
  have "gai_live w1 = gai_live w" using sys_gai_live(3)[of w fd] a by simp
  moreover have "gai_live w2 = gai_live w1" using sys_gai_live(4)[of w1 fd "fl OR O_NONBLOCK"] b by simp
  moreover have "w' = w1 \<or> w' = w2"
    using run a b by (auto simp: anetNonBlock_def split: if_splits)
  ultimately show ?thesis by auto
qed

text \<open>
  Every return of the loop of \<open>anetTcpGenericConnect\<close> releases the list, but the return
  after a failed \<open>anetNonBlock\<close>; without the non-blocking flag that return is not taken.
\<close>

lemma connect_loop_release:
  "anetTcpGenericConnect_loop err flags ss ps w = (r, err', ss', w') \<Longrightarrow>
     gai_live w' = gai_live w - 1 \<or>
     (r = ANET_ERR \<and> flags AND ANET_CONNECT_NONBLOCK \<noteq> 0 \<and> gai_live w' = gai_live w)"
proof (induction ps arbitrary: err w)
  case Nil
  then show ?case by (auto simp: sys_freeaddrinfo_def)
next
  case (Cons p ps)
  obtain s err1 w1 where cs: "anetCreateSocket err (ai_family p) w = (s, err1, w1)"
    by (cases "anetCreateSocket err (ai_family p) w") auto
  note g1 = anetCreateSocket_gai_live[OF cs]
  show ?case
  proof (cases "s = ANET_ERR")
    case True
    with Cons.prems cs have "anetTcpGenericConnect_loop err1 flags ss ps w1 = (r, err', ss', w')"
      by simp
    from Cons.IH[OF this] g1 show ?thesis by simp
  next
    case False
    obtain nb err2 w2 where nb:
      "(if flags AND ANET_CONNECT_NONBLOCK \<noteq> 0 then anetNonBlock err1 s w1
        else (ANET_OK, err1, w1)) = (nb, err2, w2)"
      by (cases "if flags AND ANET_CONNECT_NONBLOCK \<noteq> 0 then anetNonBlock err1 s w1
        else (ANET_OK, err1, w1)") auto
    have g2: "gai_live w2 = gai_live w1"
      using nb anetNonBlock_gai_live[of err1 s w1 nb err2 w2] by (auto split: if_splits)
    have nbflag: "nb \<noteq> ANET_OK \<Longrightarrow> flags AND ANET_CONNECT_NONBLOCK \<noteq> 0"
      using nb by (auto split: if_splits)
    show ?thesis
    proof (cases "nb = ANET_OK")
      case nbfail: False
      with Cons.prems cs False nb have "r = ANET_ERR" "w' = w2" by simp_all
      with g1 g2 nbflag[OF nbfail] show ?thesis by simp
    next
      case True
      obtain c w3 where c: "sys_connect w2 s (ai_addr p) (ai_addrlen p) = (c, w3)"
        by (cases "sys_connect w2 s (ai_addr p) (ai_addrlen p)") auto
      have g3: "gai_live w3 = gai_live w2"
        using sys_connect_gai_live[of w2 s "ai_addr p" "ai_addrlen p"] c by simp
      show ?thesis
      proof (cases "c \<ge> 0 \<or> (errno w3 = EINPROGRESS \<and> flags AND ANET_CONNECT_NONBLOCK \<noteq> 0)")
        case yes: True
        with Cons.prems cs False nb True c have "w' = sys_freeaddrinfo w3"
          by (auto split: if_splits)
        with g1 g2 g3 show ?thesis by (simp add: sys_freeaddrinfo_def)
      next
        case no: False
        with Cons.prems cs False nb True c
        have "anetTcpGenericConnect_loop (anetSetError err2 (''connect: '' @ strerror w3 (errno w3)))
                flags ss ps (sys_close w3 s) = (r, err', ss', w')"
          by (auto simp del: append.simps split: if_splits)
        from Cons.IH[OF this] g1 g2 g3 show ?thesis by simp
      qed
    qed
  qed
qed

lemma anetTcpConnect_releases:
  assumes "anetTcpConnect err addr service ss w = (r, err', ss', w')"
  shows "gai_live w' = gai_live w"
proof (cases "resolver w addr service 0")
  case (Unresolved g)
  from assms have "(r, err', ss', w') = anetTcpGenericConnect err addr service ANET_CONNECT_NONE ss w"
    by (simp add: anetTcpConnect_def)
  also note anetTcpGenericConnect_unresolved[OF Unresolved]
  finally show ?thesis by simp
next
  case (Resolved cs)
  from assms have "anetTcpGenericConnect_loop err ANET_CONNECT_NONE ss cs
      (w\<lparr>gai_live := Suc (gai_live w)\<rparr>) = (r, err', ss', w')"
    by (simp add: anetTcpConnect_def anetTcpGenericConnect_resolved[OF Resolved])
  from connect_loop_release[OF this] show ?thesis
    by (simp add: ANET_CONNECT_NONE_def ANET_CONNECT_NONBLOCK_def)
qed

subsection \<open>Interrupted and failed calls of \<^verbatim>\<open>accept\<close>\<close>

lemma anetGenericAccept_retries:
  assumes "map_of (fdtab w) s \<noteq> None"
    and "incoming w = replicate n (AcceptFails EINTR) @ Conn peer # rest"
  shows "\<exists>w'. anetGenericAccept err s sa len w =
           Some (lowest_free (open_fds w), err,
                 (case sa of None \<Rightarrow> None | Some buf \<Rightarrow> Some (memcpy buf peer len)),
                 length peer, w') \<and> incoming w' = rest"
  using assms
proof (induction n arbitrary: w)
  case 0
  then obtain lsock where l: "map_of (fdtab w) s = Some lsock" by blast
  let ?w' = "w\<lparr>fdtab := (lowest_free (open_fds w), (new_sock (sa_family peer))\<lparr>so_peer := Some peer\<rparr>)
                          # fdtab w,
               incoming := rest\<rparr>"
  have "sys_accept w s sa len = Some (lowest_free (open_fds w),
      (case sa of None \<Rightarrow> None | Some buf \<Rightarrow> Some (memcpy buf peer len)), length peer, ?w')"
    using 0 l by (simp add: sys_accept_def)
  from anetGenericAccept_unfold[OF this, of err] show ?case by simp
next
  case (Suc n)
  then obtain lsock where l: "map_of (fdtab w) s = Some lsock" by blast
  let ?w1 = "w\<lparr>errno := EINTR, incoming := replicate n (AcceptFails EINTR) @ Conn peer # rest\<rparr>"
  have acc: "sys_accept w s sa len = Some (-1, sa, len, ?w1)"
    using Suc.prems l by (simp add: sys_accept_def)
  have "anetGenericAccept err s sa len w = anetGenericAccept err s sa len ?w1"
    using anetGenericAccept_unfold[OF acc, of err] by simp
  moreover have "map_of (fdtab ?w1) s \<noteq> None" using l by simp
  moreover have "incoming ?w1 = replicate n (AcceptFails EINTR) @ Conn peer # rest" by simp
  moreover have "open_fds ?w1 = open_fds w" by (simp add: open_fds_def)
  ultimately show ?case using Suc.IH[of ?w1] by simp
qed

lemma anetGenericAccept_fails:
  assumes "map_of (fdtab w) s \<noteq> None"
    and "incoming w = replicate n (AcceptFails EINTR) @ AcceptFails e # rest" and "e \<noteq> EINTR"
  shows "\<exists>w'. anetGenericAccept err s sa len w =
           Some (-1, anetSetError err (''accept: '' @ strerror w e), sa, len, w')"
  using assms(1,2)
proof (induction n arbitrary: w)
  case 0
  then obtain lsock where l: "map_of (fdtab w) s = Some lsock" by blast
  have "sys_accept w s sa len = Some (-1, sa, len, w\<lparr>errno := e, incoming := rest\<rparr>)"
    using 0 l by (simp add: sys_accept_def)
  from anetGenericAccept_unfold[OF this, of err] assms(3) show ?case by (simp del: append.simps)
next
  case (Suc n)
  then obtain lsock where l: "map_of (fdtab w) s = Some lsock" by blast
  let ?w1 = "w\<lparr>errno := EINTR, incoming := replicate n (AcceptFails EINTR) @ AcceptFails e # rest\<rparr>"
  have acc: "sys_accept w s sa len = Some (-1, sa, len, ?w1)"
    using Suc.prems l by (simp add: sys_accept_def)
  have "anetGenericAccept err s sa len w = anetGenericAccept err s sa len ?w1"
    using anetGenericAccept_unfold[OF acc, of err] by simp
  moreover have "map_of (fdtab ?w1) s \<noteq> None" using l by simp
  moreover have "incoming ?w1 = replicate n (AcceptFails EINTR) @ AcceptFails e # rest" by simp
  ultimately show ?case using Suc.IH[of ?w1] by (simp del: append.simps)
qed

text \<open>
  What holds of \<open>anetTcpAccept\<close>: after any number of interruptions it returns the
  descriptor of the connection, with the peer's address cut to \<open>sizeof_ptr\<close> bytes in the
  slot; a failure other than an interruption gives \<open>ANET_ERR\<close> and the message that
  begins with \<^verbatim>\<open>accept: \<close>.
\<close>

lemma anetTcpAccept_retries:
  assumes "map_of (fdtab w) s \<noteq> None"
    and "incoming w = replicate n (AcceptFails EINTR) @ Conn peer # rest"
  shows "\<exists>w'. anetTcpAccept err s ss w =
           Some (lowest_free (open_fds w), err,
                 (case ss of None \<Rightarrow> None | Some buf \<Rightarrow> Some (memcpy buf peer sizeof_ptr)), w')
           \<and> incoming w' = rest"
proof -
  from anetGenericAccept_retries[OF assms, of err ss sizeof_ptr] obtain w' where
    "anetGenericAccept err s ss sizeof_ptr w =
       Some (lowest_free (open_fds w), err,
             (case ss of None \<Rightarrow> None | Some buf \<Rightarrow> Some (memcpy buf peer sizeof_ptr)),
             length peer, w')" and "incoming w' = rest" by blast
  then show ?thesis by (simp add: anetTcpAccept_def ANET_ERR_def)
qed

lemma anetTcpAccept_fails:
  assumes "map_of (fdtab w) s \<noteq> None"
    and "incoming w = replicate n (AcceptFails EINTR) @ AcceptFails e # rest" and "e \<noteq> EINTR"
  shows "\<exists>w'. anetTcpAccept (Some a) s ss w =
           Some (ANET_ERR, Some (take (ANET_ERR_LEN - 1) (''accept: '' @ strerror w e)), ss, w')"
proof -
  from anetGenericAccept_fails[OF assms, of "Some a" ss sizeof_ptr] obtain w' where
    "anetGenericAccept (Some a) s ss sizeof_ptr w =
       Some (-1, anetSetError (Some a) (''accept: '' @ strerror w e), ss, sizeof_ptr, w')" by blast
  then show ?thesis by (simp add: anetTcpAccept_def ANET_ERR_def anetSetError_def del: append.simps)
qed


section \<open>Resources and addresses: runs that show defects\<close>

text \<open>
  C1 at a failing input: a non-blocking connect to one candidate, where \<^verbatim>\<open>socket\<close> and
  \<^verbatim>\<open>setsockopt\<close> succeed and \<^verbatim>\<open>fcntl(F_GETFL)\<close> fails. The call returns \<open>ANET_ERR\<close>
  and the address list it resolved is still held: \<open>anetTcpGenericConnect\<close> returns
  there without calling \<^verbatim>\<open>freeaddrinfo\<close>.
\<close>

theorem anetTcpNonBlockConnect_keeps_list:
  "gai_live (sample_world [loopback4] [Succeeds, Succeeds, Fails 1] []) = 0 \<and>
   (case anetTcpNonBlockConnect (Some []) (Some ''localhost'') (Some ''80'') None
           (sample_world [loopback4] [Succeeds, Succeeds, Fails 1] []) of
      (r, err, ss, w') \<Rightarrow>
        r = ANET_ERR \<and> err = Some ''fcntl(F_GETFL): Operation not permitted'' \<and> gai_live w' = 1)"
  by code_simp

text \<open>
  C2 at two failing inputs: \<open>anetCreateSocket\<close> when \<^verbatim>\<open>setsockopt(SO_REUSEADDR)\<close> fails,
  and the non-blocking connect when \<^verbatim>\<open>fcntl(F_GETFL)\<close> fails. Before the call the
  descriptors 0, 1 and 2 are open. Both calls return \<open>ANET_ERR\<close>, and the descriptor 3
  that \<^verbatim>\<open>socket\<close> had returned is still open.
\<close>

theorem socket_left_open_on_failure:
  "open_fds (sample_world [loopback4] [Succeeds, Fails 1] []) = [0, 1, 2] \<and>
   (case anetCreateSocket (Some []) AF_INET (sample_world [loopback4] [Succeeds, Fails 1] []) of
      (r, err, w') \<Rightarrow>
        r = ANET_ERR \<and> err = Some ''setsockopt SO_REUSEADDR: Operation not permitted'' \<and>
        open_fds w' = [3, 0, 1, 2]) \<and>
   (case anetTcpNonBlockConnect (Some []) (Some ''localhost'') (Some ''80'') None
           (sample_world [loopback4] [Succeeds, Succeeds, Fails 1] []) of
      (r, err, ss, w') \<Rightarrow> r = ANET_ERR \<and> open_fds w' = [3, 0, 1, 2])"
  by code_simp

text \<open>
  C7 at a failing input: a connect to an IPv6 candidate, whose socket address has 28
  bytes, with an out-address slot of 128 zero bytes. The call succeeds and the slot holds
  the first 8 bytes of the address (family, port, flow) and none of the 16 address bytes:
  \<^verbatim>\<open>memcpy\<close> is given \<^verbatim>\<open>sizeof(&ss)\<close>, the size of a pointer. The same holds for
  \<open>anetTcpNonBlockConnectAddr\<close> on the pending path.
\<close>

theorem connect_saves_pointer_size_only:
  "(case anetTcpConnect None (Some ''localhost'') (Some ''80'') (Some (replicate 128 0))
           (sample_world [loopback6] [] []) of
      (r, err, ss, w') \<Rightarrow>
        r = 3 \<and> ss = Some ([10, 0, 0, 80, 0, 0, 0, 0] @ replicate 120 0) \<and>
        map_option (take 28) ss \<noteq> Some (ai_addr loopback6)) \<and>
   (case anetTcpNonBlockConnectAddr None loopback6 (Some (replicate 128 0))
           (sample_world [] [Succeeds, Succeeds, Succeeds, Succeeds, Fails EINPROGRESS] []) of
      (r, err, ss, w') \<Rightarrow>
        r = 3 \<and> ss = Some ([10, 0, 0, 80, 0, 0, 0, 0] @ replicate 120 0) \<and>
        map_option (take 28) ss \<noteq> Some (ai_addr loopback6))"
  by code_simp

text \<open>
  C8 at a failing input: \<open>anetTcpAccept\<close> on a listening socket, interrupted twice by a
  signal before an IPv6 peer connects. The interruptions are retried and the new
  descriptor 4 is returned with the sink untouched, but the out-address slot holds the
  first 8 bytes of the peer's 28-byte address only: \<^verbatim>\<open>accept\<close> is told that the slot
  has \<^verbatim>\<open>sizeof(&ss)\<close> bytes.
\<close>

theorem accept_stores_pointer_size_only:
  "(case anetTcpAccept (Some []) 3 (Some (replicate 128 0))
           (sample_listener [AcceptFails EINTR, AcceptFails EINTR, Conn peer6]) of
      None \<Rightarrow> False
    | Some (fd, err, ss, w') \<Rightarrow>
        fd = 4 \<and> err = Some [] \<and> incoming w' = [] \<and>
        map_of (fdtab w') 4 = Some ((new_sock AF_INET6)\<lparr>so_peer := Some peer6\<rparr>) \<and>
        ss = Some ([10, 0, 156, 64, 0, 0, 0, 0] @ replicate 120 0) \<and>
        map_option (take 28) ss \<noteq> Some peer6)"
  by code_simp

end
